theory Spec2Isabelle
  imports Main
begin

section \<open>The flow package: rebindable ports, connections and the network\<close>

text \<open>
  The package \<open>flow\<close> gives every component typed ports \<open>In[T]\<close> and \<open>Out[T]\<close>.
  A port holds the data channel it is bound to at the moment and a signal channel
  \<open>ping\<close>; \<open>Connect\<close> and \<open>Disconnect\<close> rebind the data channel with \<open>swap\<close> while
  the component's goroutine may be inside \<open>Recv\<close> or \<open>Send\<close>.

  The program is concurrent, so it is modelled as a transition system. The state holds
  the ports, the heap of channels, the contexts and the goroutines; every goroutine has a
  program counter, and one event of the scheduler runs one atomic piece of one goroutine.
  The pieces are cut where the Go code can be interleaved: at every mutex section, at
  every channel operation and at every entry of a \<open>select\<close>.
\<close>

subsection \<open>Data\<close>

type_synonym chan = nat
type_synonym tid = nat

text \<open>The two errors a \<open>context.Context\<close> reports from \<open>Err()\<close>.\<close>

datatype err = Canceled | DeadlineExceeded

text \<open>
  A channel of the heap. \<open>make(chan T)\<close> gives capacity 0: a send and a receive meet
  in a hand-off. A channel is identified by its index in the heap.
\<close>

record chan_state =
  cap :: nat
  closed :: bool

text \<open>
  \<open>type In[T any] struct { mu sync.Mutex; data chan T; ping chan struct{}; create sync.Once }\<close>
  and \<open>Out[T]\<close>, which has the same fields. \<open>data = None\<close> is the nil channel.
  \<open>ping = None\<close> is the nil channel before \<open>init\<close>; \<open>ping = Some q\<close> is the channel
  made by \<open>init\<close>, with the queue \<open>q\<close> of the goroutines that are parked in a receive
  on it (first parked first). \<open>create\<close> is the done flag of the \<open>sync.Once\<close>. The mutex
  has no field: each section it protects is one atomic piece.
\<close>

record port =
  data :: "chan option"
  ping :: "tid list option"
  create :: bool

text \<open>A pointer \<open>*In[T]\<close> or \<open>*Out[T]\<close>: the kind of the port and its address.\<close>

datatype pref = InP nat | OutP nat

text \<open>\<open>type Conn[T any] struct { from *Out[T]; to *In[T] }\<close>\<close>

record conn =
  from_port :: nat
  to_port :: nat

text \<open>
  A call \<open>in.Recv(ctx)\<close> or \<open>out.Send(ctx, v)\<close>: the port's address, the context and
  the value sent.
\<close>

datatype 'a call = Recv nat nat | Send nat nat 'a

text \<open>
  The program counter inside \<open>Recv\<close> and \<open>Send\<close>, whose bodies have the same shape:
  \<^item> \<open>Entry\<close>: before \<open>if err := ctx.Err(); err != nil\<close>;
  \<^item> \<open>Init\<close>: before \<open>in.init()\<close>;
  \<^item> \<open>Drain\<close>: at the head of the \<open>for\<close> loop, before the first \<open>select\<close>;
  \<^item> \<open>Eval\<close>: before the second \<open>select\<close>, whose operands are yet to be evaluated;
  \<^item> \<open>Select ch\<close>: \<open>in.current()\<close> has returned \<open>ch\<close>, the \<open>select\<close> is not yet entered;
  \<^item> \<open>Parked ch\<close>: no case was ready, the goroutine sleeps in the queues of
    \<open>ctx.Done()\<close>, \<open>ch\<close> and \<open>ping\<close>.
\<close>

datatype pc = Entry | Init | Drain | Eval | Select "chan option" | Parked "chan option"

text \<open>The three atomic pieces of \<open>swap\<close>: \<open>init()\<close>, the mutex section, the notify.\<close>

datatype op = InitP pref | SetP pref "chan option" | NotifyP pref

text \<open>
  A goroutine: inside a call of \<open>Recv\<close> or \<open>Send\<close>; returned from \<open>Recv\<close> with
  \<open>(v, err)\<close>; returned from \<open>Send\<close> with \<open>err\<close>; panicked in a send on a closed
  channel; about to run \<open>Connect(from, to)\<close>; or a controller with the pieces of
  \<open>swap\<close> it still has to run.
\<close>

datatype 'a thread =
    Call "'a call" pc
  | RecvRet 'a "err option"
  | SendRet "err option"
  | SendPanic
  | ConnectCall nat nat
  | Ctl "op list"

record 'a sys =
  ins :: "nat \<Rightarrow> port"
  outs :: "nat \<Rightarrow> port"
  chans :: "chan_state list"
  ctxs :: "nat \<Rightarrow> err option"
  threads :: "'a thread list"

subsection \<open>Ports: init, swap, current\<close>

text \<open>\<open>func (in *In[T]) init() { in.create.Do(func() { in.ping = make(chan struct{}) }) }\<close>\<close>

definition init :: "port \<Rightarrow> port" where
  "init p = (if create p then p else p\<lparr>ping := Some [], create := True\<rparr>)"

fun port_at :: "'a sys \<Rightarrow> pref \<Rightarrow> port" where
  "port_at s (InP a) = ins s a"
| "port_at s (OutP a) = outs s a"

fun port_upd :: "pref \<Rightarrow> (port \<Rightarrow> port) \<Rightarrow> 'a sys \<Rightarrow> 'a sys" where
  "port_upd (InP a) f s = s\<lparr>ins := (ins s)(a := f (ins s a))\<rparr>"
| "port_upd (OutP a) f s = s\<lparr>outs := (outs s)(a := f (outs s a))\<rparr>"

text \<open>\<open>func (in *In[T]) current() chan T\<close>: the data channel, read under the mutex.\<close>

definition current :: "'a sys \<Rightarrow> pref \<Rightarrow> chan option" where
  "current s p = data (port_at s p)"

text \<open>
  A goroutine parked in the second \<open>select\<close> that receives the signal leaves the
  \<open>select\<close> through its empty third case and is back at the head of the loop.
\<close>

fun wake :: "'a thread \<Rightarrow> 'a thread" where
  "wake (Call c (Parked ch)) = Call c Drain"
| "wake th = th"

text \<open>
  \<open>select { case in.ping <- struct{}{}: default: }\<close>. The send on the unbuffered
  \<open>ping\<close> goes through only when a receiver is parked on it; the first parked
  receiver takes the signal. With no parked receiver (and on a nil \<open>ping\<close>) the
  \<open>default\<close> case runs and nothing changes.
\<close>

definition notify :: "pref \<Rightarrow> 'a sys \<Rightarrow> 'a sys" where
  "notify p s =
     (case ping (port_at s p) of
        Some (u # q) \<Rightarrow>
          (port_upd p (\<lambda>x. x\<lparr>ping := Some q\<rparr>) s)
            \<lparr>threads := (threads s)[u := wake (threads s ! u)]\<rparr>
      | _ \<Rightarrow> s)"

fun do_op :: "op \<Rightarrow> 'a sys \<Rightarrow> 'a sys" where
  "do_op (InitP p) s = port_upd p init s"
| "do_op (SetP p d) s = port_upd p (\<lambda>x. x\<lparr>data := d\<rparr>) s"
| "do_op (NotifyP p) s = notify p s"

text \<open>
  \<open>func (in *In[T]) swap(data chan T)\<close>: \<open>in.init()\<close>; then \<open>in.data = data\<close>
  under the mutex; then the notify. \<open>swap_ops\<close> lists the same three pieces for a
  goroutine that runs them interleaved with others.
\<close>

definition swap :: "pref \<Rightarrow> chan option \<Rightarrow> 'a sys \<Rightarrow> 'a sys" where
  "swap p d s = do_op (NotifyP p) (do_op (SetP p d) (do_op (InitP p) s))"

definition swap_ops :: "pref \<Rightarrow> chan option \<Rightarrow> op list" where
  "swap_ops p d = [InitP p, SetP p d, NotifyP p]"

subsection \<open>Connections\<close>

text \<open>\<open>make(chan T)\<close>: a new open channel of capacity 0 at the end of the heap.\<close>

definition make_chan :: "'a sys \<Rightarrow> chan \<times> 'a sys" where
  "make_chan s = (length (chans s), s\<lparr>chans := chans s @ [\<lparr>cap = 0, closed = False\<rparr>]\<rparr>)"

text \<open>
  \<open>func Connect[T any](from *Out[T], to *In[T]) *Conn[T]\<close>, run without
  interleaving: it returns the handle and the new state.
\<close>

definition Connect :: "nat \<Rightarrow> nat \<Rightarrow> 'a sys \<Rightarrow> conn \<times> 'a sys" where
  "Connect frm to s =
     (let c = \<lparr>from_port = frm, to_port = to\<rparr>;
          (d, s1) = make_chan s;
          s2 = swap (OutP (from_port c)) (Some d) s1;
          s3 = swap (InP (to_port c)) (Some d) s2
      in (c, s3))"

text \<open>\<open>func (conn *Conn[T]) Disconnect()\<close>, run without interleaving.\<close>

definition Disconnect :: "conn \<Rightarrow> 'a sys \<Rightarrow> 'a sys" where
  "Disconnect c s = swap (InP (to_port c)) None (swap (OutP (from_port c)) None s)"

definition Disconnect_ops :: "conn \<Rightarrow> op list" where
  "Disconnect_ops c = swap_ops (OutP (from_port c)) None @ swap_ops (InP (to_port c)) None"

subsection \<open>Recv and Send, one atomic piece at a time\<close>

fun ctx_of :: "'a call \<Rightarrow> nat" where
  "ctx_of (Recv p k) = k"
| "ctx_of (Send p k v) = k"

fun pref_of :: "'a call \<Rightarrow> pref" where
  "pref_of (Recv p k) = InP p"
| "pref_of (Send p k v) = OutP p"

text \<open>\<open>return zero, err\<close> in \<open>Recv\<close> and \<open>return err\<close> in \<open>Send\<close>.\<close>

fun ret_err :: "'a \<Rightarrow> 'a call \<Rightarrow> err \<Rightarrow> 'a thread" where
  "ret_err zero (Recv p k) e = RecvRet zero (Some e)"
| "ret_err zero (Send p k v) e = SendRet (Some e)"

definition set_thread :: "tid \<Rightarrow> 'a thread \<Rightarrow> 'a sys \<Rightarrow> 'a sys" where
  "set_thread t th s = s\<lparr>threads := (threads s)[t := th]\<rparr>"

definition is_closed :: "'a sys \<Rightarrow> chan \<Rightarrow> bool" where
  "is_closed s d = (d < length (chans s) \<and> closed (chans s ! d))"

fun waits_send :: "chan \<Rightarrow> 'a thread \<Rightarrow> bool" where
  "waits_send d (Call (Send p k v) (Parked (Some d'))) = (d' = d)"
| "waits_send d th = False"

fun waits_recv :: "chan \<Rightarrow> 'a thread \<Rightarrow> bool" where
  "waits_recv d (Call (Recv p k) (Parked (Some d'))) = (d' = d)"
| "waits_recv d th = False"

text \<open>
  Whether the data case of the second \<open>select\<close> can proceed at once: never on the
  nil channel; on a channel, when it is closed or a partner is parked on it.
\<close>

fun data_ready :: "'a sys \<Rightarrow> 'a call \<Rightarrow> chan option \<Rightarrow> bool" where
  "data_ready s c None = False"
| "data_ready s (Recv p k) (Some d) = (is_closed s d \<or> list_ex (waits_send d) (threads s))"
| "data_ready s (Send p k v) (Some d) = (is_closed s d \<or> list_ex (waits_recv d) (threads s))"

text \<open>Entering and leaving the receive queue of the port's \<open>ping\<close>.\<close>

definition enqueue :: "tid \<Rightarrow> pref \<Rightarrow> 'a sys \<Rightarrow> 'a sys" where
  "enqueue t p s = port_upd p (\<lambda>x. x\<lparr>ping := map_option (\<lambda>q. q @ [t]) (ping x)\<rparr>) s"

definition dequeue :: "tid \<Rightarrow> pref \<Rightarrow> 'a sys \<Rightarrow> 'a sys" where
  "dequeue t p s = port_upd p (\<lambda>x. x\<lparr>ping := map_option (removeAll t) (ping x)\<rparr>) s"

text \<open>
  The pieces a goroutine runs without a choice.
  \<^item> \<open>Entry\<close>: \<open>if err := ctx.Err(); err != nil { return zero, err }\<close>.
  \<^item> \<open>Init\<close>: \<open>in.init()\<close>.
  \<^item> \<open>Drain\<close>: \<open>select { case <-in.ping: default: }\<close>. A receive with a \<open>default\<close>
    goes through only when a sender is parked on \<open>ping\<close>; the only sender is the
    \<open>select\<close> with \<open>default\<close> of \<open>swap\<close>, which never parks. So \<open>default\<close> runs.
  \<^item> \<open>Eval\<close>: the operands of the second \<open>select\<close>, among them \<open>in.current()\<close>.
  \<^item> \<open>ConnectCall\<close>: \<open>data := make(chan T)\<close>; the two swaps remain.
  \<^item> \<open>Ctl\<close>: the next piece of a swap.
\<close>

fun step_thread :: "'a \<Rightarrow> tid \<Rightarrow> 'a thread \<Rightarrow> 'a sys \<Rightarrow> 'a sys option" where
  "step_thread zero t (Call c Entry) s =
     Some (set_thread t
       (case ctxs s (ctx_of c) of Some e \<Rightarrow> ret_err zero c e | None \<Rightarrow> Call c Init) s)"
| "step_thread zero t (Call c Init) s =
     Some (set_thread t (Call c Drain) (port_upd (pref_of c) init s))"
| "step_thread zero t (Call c Drain) s = Some (set_thread t (Call c Eval) s)"
| "step_thread zero t (Call c Eval) s =
     Some (set_thread t (Call c (Select (current s (pref_of c)))) s)"
| "step_thread zero t (ConnectCall f g) s =
     (let (d, s1) = make_chan s
      in Some (set_thread t (Ctl (swap_ops (OutP f) (Some d) @ swap_ops (InP g) (Some d))) s1))"
| "step_thread zero t (Ctl (x # xs)) s = Some (set_thread t (Ctl xs) (do_op x s))"
| "step_thread zero t th s = None"

text \<open>
  The second \<open>select\<close> of \<open>Recv\<close>:
  \<open>select { case <-ctx.Done(): return zero, ctx.Err(); case v := <-in.current(): return v, nil; case <-in.ping: }\<close>
  and of \<open>Send\<close>, with \<open>case out.current() <- v: return nil\<close>.
  \<^item> \<open>park\<close>: on entry no case is ready; the goroutine parks.
  \<^item> \<open>on_done\<close>: the context is done, on entry or while parked.
  \<^item> \<open>xfer\<close>: a receiver and a sender meet on a channel; one of them is parked on it and
    the other enters its \<open>select\<close>.
  \<^item> \<open>on_closed\<close>: the channel is closed: a receive yields the zero value, a send
    panics.
  The third case is taken by \<open>notify\<close>, run by the goroutine that swaps.
\<close>

fun park :: "tid \<Rightarrow> 'a thread \<Rightarrow> 'a sys \<Rightarrow> 'a sys option" where
  "park t (Call c (Select ch)) s =
     (if ctxs s (ctx_of c) = None \<and> \<not> data_ready s c ch
      then Some (set_thread t (Call c (Parked ch)) (enqueue t (pref_of c) s))
      else None)"
| "park t th s = None"

fun in_select :: "pc \<Rightarrow> chan option option" where
  "in_select (Select ch) = Some ch"
| "in_select (Parked ch) = Some ch"
| "in_select x = None"

fun on_done :: "'a \<Rightarrow> tid \<Rightarrow> 'a thread \<Rightarrow> 'a sys \<Rightarrow> 'a sys option" where
  "on_done zero t (Call c x) s =
     (case (in_select x, ctxs s (ctx_of c)) of
        (Some ch, Some e) \<Rightarrow> Some (set_thread t (ret_err zero c e) (dequeue t (pref_of c) s))
      | _ \<Rightarrow> None)"
| "on_done zero t th s = None"

fun meet :: "pc \<Rightarrow> pc \<Rightarrow> bool" where
  "meet (Select (Some d)) (Parked (Some d')) = (d = d')"
| "meet (Parked (Some d)) (Select (Some d')) = (d = d')"
| "meet x y = False"

fun xfer :: "tid \<Rightarrow> tid \<Rightarrow> 'a thread \<Rightarrow> 'a thread \<Rightarrow> 'a sys \<Rightarrow> 'a sys option" where
  "xfer r w (Call (Recv p k) x) (Call (Send q k' v) y) s =
     (if meet x y
      then Some (set_thread w (SendRet None) (set_thread r (RecvRet v None)
             (dequeue w (OutP q) (dequeue r (InP p) s))))
      else None)"
| "xfer r w th th' s = None"

fun on_closed :: "'a \<Rightarrow> tid \<Rightarrow> 'a thread \<Rightarrow> 'a sys \<Rightarrow> 'a sys option" where
  "on_closed zero t (Call c x) s =
     (case in_select x of
        Some (Some d) \<Rightarrow>
          (if is_closed s d
           then Some (set_thread t (case c of Recv p k \<Rightarrow> RecvRet zero None | Send p k v \<Rightarrow> SendPanic)
                  (dequeue t (pref_of c) s))
           else None)
      | _ \<Rightarrow> None)"
| "on_closed zero t th s = None"

text \<open>
  The events of the scheduler. \<open>Cancel k e\<close> is the environment cancelling context
  \<open>k\<close>; the first error of a context stays.
\<close>

datatype event = Step tid | Park tid | OnDone tid | Xfer tid tid | OnClosed tid | Cancel nat err

fun exec :: "'a \<Rightarrow> event \<Rightarrow> 'a sys \<Rightarrow> 'a sys option" where
  "exec zero (Step t) s =
     (if t < length (threads s) then step_thread zero t (threads s ! t) s else None)"
| "exec zero (Park t) s =
     (if t < length (threads s) then park t (threads s ! t) s else None)"
| "exec zero (OnDone t) s =
     (if t < length (threads s) then on_done zero t (threads s ! t) s else None)"
| "exec zero (Xfer r w) s =
     (if r < length (threads s) \<and> w < length (threads s)
      then xfer r w (threads s ! r) (threads s ! w) s else None)"
| "exec zero (OnClosed t) s =
     (if t < length (threads s) then on_closed zero t (threads s ! t) s else None)"
| "exec zero (Cancel k e) s =
     Some (s\<lparr>ctxs := (ctxs s)(k := Some (case ctxs s k of None \<Rightarrow> e | Some e' \<Rightarrow> e'))\<rparr>)"

text \<open>A schedule is a list of events; \<open>None\<close> when an event of the list is not enabled.\<close>

fun run :: "'a \<Rightarrow> event list \<Rightarrow> 'a sys \<Rightarrow> 'a sys option" where
  "run zero [] s = Some s"
| "run zero (e # es) s = (case exec zero e s of None \<Rightarrow> None | Some s' \<Rightarrow> run zero es s')"

subsection \<open>Network\<close>

text \<open>
  \<open>type Component interface { Run(ctx context.Context) error }\<close>. What a component's
  \<open>Run\<close> does with a context: it never returns (\<open>None\<close>), returns nil
  (\<open>Some None\<close>) or returns an error (\<open>Some (Some e)\<close>).
\<close>

type_synonym ('c, 'e) component = "'c \<Rightarrow> 'e option option"

text \<open>\<open>type Network struct { components []Component }\<close>\<close>

record ('c, 'e) network =
  components :: "('c, 'e) component list"

text \<open>\<open>func (net *Network) Add(components ...Component)\<close>\<close>

definition Add :: "('c, 'e) component list \<Rightarrow> ('c, 'e) network \<Rightarrow> ('c, 'e) network" where
  "Add cs net = net\<lparr>components := components net @ cs\<rparr>"

text \<open>
  Modelled from the spec: the type \<open>errgroup.Group\<close> of golang.org/x/sync, which
  \<open>Network.Run\<close> uses and the repository does not contain. The spec describes it as
  "a structured-concurrency task group (start N tasks, wait, collect first error)".
  \<open>first_err\<close> is the error collected so far, \<open>pending\<close> the number of started tasks
  that have not finished.
\<close>

record 'e group =
  first_err :: "'e option"
  pending :: nat

text \<open>Modelled from the spec: \<open>g.Go(f)\<close> of the task group starts a task.\<close>

definition Go :: "'e group \<Rightarrow> 'e group" where
  "Go g = g\<lparr>pending := Suc (pending g)\<rparr>"

text \<open>
  Modelled from the spec: a task of the group finishes with result \<open>r\<close>, nil or an
  error; the first error collected stays.
\<close>

definition finish :: "'e option \<Rightarrow> 'e group \<Rightarrow> 'e group" where
  "finish r g =
     g\<lparr>first_err := (case first_err g of None \<Rightarrow> r | Some e \<Rightarrow> Some e),
       pending := pending g - 1\<rparr>"

text \<open>
  Modelled from the spec: \<open>g.Wait()\<close> of the task group returns the collected error
  once no task is pending, and does not return (\<open>None\<close>) before.
\<close>

definition Wait :: "'e group \<Rightarrow> 'e option option" where
  "Wait g = (if pending g = 0 then Some (first_err g) else None)"

text \<open>
  \<open>func (net *Network) Run(ctx context.Context) error\<close>. The loop starts one task
  \<open>func() error { return c.Run(ctx) }\<close> for each component; \<open>tasks\<close> lists what each
  of them does. The tasks run concurrently: \<open>order\<close> lists the tasks that finish, in the
  order in which they finish. A task that never returns does not finish.
\<close>

definition tasks :: "'c \<Rightarrow> ('c, 'e) network \<Rightarrow> 'e option option list" where
  "tasks ctx net = map (\<lambda>c. c ctx) (components net)"

definition finish_task :: "'e option option list \<Rightarrow> nat \<Rightarrow> 'e group \<Rightarrow> 'e group" where
  "finish_task ts i g =
     (if i < length ts then (case ts ! i of Some r \<Rightarrow> finish r g | None \<Rightarrow> g) else g)"

definition Run :: "'c \<Rightarrow> nat list \<Rightarrow> ('c, 'e) network \<Rightarrow> 'e option option" where
  "Run ctx order net =
     (let g = fold (\<lambda>c. Go) (components net) \<lparr>first_err = None, pending = 0\<rparr>
      in Wait (fold (finish_task (tasks ctx net)) order g))"

subsection \<open>Initial states\<close>

text \<open>
  The zero value of \<open>In[T]\<close> and \<open>Out[T]\<close>, as in \<open>var upper Upper\<close>, and the
  state in which a program starts its goroutines: every port has the zero value, no
  channel is made, no context is cancelled.
\<close>

definition port0 :: port where
  "port0 = \<lparr>data = None, ping = None, create = False\<rparr>"

definition boot :: "'a thread list \<Rightarrow> 'a sys" where
  "boot ths = \<lparr>ins = (\<lambda>a. port0), outs = (\<lambda>a. port0), chans = [], ctxs = (\<lambda>k. None), threads = ths\<rparr>"

subsection \<open>Notions used to state the properties\<close>

text \<open>Every channel of the heap is open.\<close>

definition all_open :: "'a sys \<Rightarrow> bool" where
  "all_open s = list_all (\<lambda>c. \<not> closed c) (chans s)"

text \<open>The goroutines that an event runs.\<close>

fun actors :: "event \<Rightarrow> tid list" where
  "actors (Step t) = [t]"
| "actors (Park t) = [t]"
| "actors (OnDone t) = [t]"
| "actors (Xfer r w) = [r, w]"
| "actors (OnClosed t) = [t]"
| "actors (Cancel k e) = []"

text \<open>A goroutine that has returned from \<open>Recv\<close> with an error has returned the zero value.\<close>

fun zero_on_error :: "'a \<Rightarrow> 'a thread \<Rightarrow> bool" where
  "zero_on_error zero (RecvRet v (Some e)) = (v = zero)"
| "zero_on_error zero th = True"

text \<open>
  A piece that binds port \<open>p\<close> to a channel; a goroutine that still has such a piece
  to run, or is about to connect \<open>p\<close>; a state in which no goroutine is one.
\<close>

fun installs :: "pref \<Rightarrow> op \<Rightarrow> bool" where
  "installs p (SetP p' (Some d)) = (p' = p)"
| "installs p x = False"

fun may_install :: "pref \<Rightarrow> 'a thread \<Rightarrow> bool" where
  "may_install p (Ctl xs) = list_ex (installs p) xs"
| "may_install p (ConnectCall f g) = (p = OutP f \<or> p = InP g)"
| "may_install p th = False"

definition quiet :: "pref \<Rightarrow> 'a sys \<Rightarrow> bool" where
  "quiet p s = (\<not> list_ex (may_install p) (threads s))"



text \<open>
  Every controller has run all its pieces; and, in such a state, a goroutine that is
  parked on the nil channel in call \<open>c\<close> or has returned an error from it.
\<close>

fun idle_thread :: "'a thread \<Rightarrow> bool" where
  "idle_thread (Ctl xs) = (xs = [])"
| "idle_thread (ConnectCall f g) = False"
| "idle_thread th = True"

definition idle :: "'a sys \<Rightarrow> bool" where
  "idle s = list_all idle_thread (threads s)"

definition parked_for_good :: "'a \<Rightarrow> tid \<Rightarrow> 'a call \<Rightarrow> 'a sys \<Rightarrow> bool" where
  "parked_for_good zero t c s =
     (idle s \<and> t < length (threads s)
      \<and> (threads s ! t = Call c (Parked None) \<or> (\<exists>e. threads s ! t = ret_err zero c e)))"

text \<open>
  The queue of \<open>ping\<close> and the goroutines. \<open>in_loop p\<close>: the goroutine is inside
  the loop of a call on port \<open>p\<close>, past \<open>init\<close>; \<open>parked_on p\<close>: it is parked in
  the \<open>select\<close> of a call on \<open>p\<close>. A port is in order when, as long as its
  \<open>sync.Once\<close> is not done, it has no \<open>ping\<close> and no goroutine is inside a loop on
  it, and from then on the queue of its \<open>ping\<close> holds exactly the goroutines parked
  on the port, each once.
\<close>

fun in_loop :: "pref \<Rightarrow> 'a thread \<Rightarrow> bool" where
  "in_loop p (Call c Entry) = False"
| "in_loop p (Call c Init) = False"
| "in_loop p (Call c x) = (pref_of c = p)"
| "in_loop p th = False"

fun parked_on :: "pref \<Rightarrow> 'a thread \<Rightarrow> bool" where
  "parked_on p (Call c (Parked ch)) = (pref_of c = p)"
| "parked_on p th = False"

definition parked_set :: "'a sys \<Rightarrow> pref \<Rightarrow> tid set" where
  "parked_set s p = {t. t < length (threads s) \<and> parked_on p (threads s ! t)}"

definition queue_ok :: "'a sys \<Rightarrow> pref \<Rightarrow> bool" where
  "queue_ok s p =
     (case ping (port_at s p) of
        None \<Rightarrow> \<not> create (port_at s p) \<and> list_all (\<lambda>th. \<not> in_loop p th) (threads s)
      | Some q \<Rightarrow> create (port_at s p) \<and> distinct q \<and> set q = parked_set s p)"

definition queues_ok :: "'a sys \<Rightarrow> bool" where
  "queues_ok s = (\<forall>p. queue_ok s p)"

text \<open>
  Of the tasks \<open>ts\<close> of a network and the order in which tasks finish: the tasks that
  finish, and the errors they report, in that order.
\<close>

definition finished :: "'e option option list \<Rightarrow> nat list \<Rightarrow> nat list" where
  "finished ts order = filter (\<lambda>i. i < length ts \<and> ts ! i \<noteq> None) order"

definition reported :: "'e option option list \<Rightarrow> nat list \<Rightarrow> 'e list" where
  "reported ts order =
     concat (map (\<lambda>i. if i < length ts then (case ts ! i of Some (Some e) \<Rightarrow> [e] | _ \<Rightarrow> []) else []) order)"

subsection \<open>Example states\<close>

text \<open>
  A goroutine parked in \<open>Recv\<close> on inbound port 0, which is not bound, and a second
  goroutine that is about to run \<open>Disconnect\<close> on a connection into that port.
\<close>

definition stall_demo :: "nat sys" where
  "stall_demo =
     \<lparr>ins = (\<lambda>a. port0)(0 := \<lparr>data = None, ping = Some [0], create = True\<rparr>),
      outs = (\<lambda>a. port0), chans = [], ctxs = (\<lambda>k. None),
      threads = [Call (Recv 0 0) (Parked None), Ctl (Disconnect_ops \<lparr>from_port = 0, to_port = 0\<rparr>)]\<rparr>"

text \<open>
  A goroutine that is about to call \<open>Recv\<close> with context 0, which is cancelled, on
  inbound port 0, while a sender with another context is parked on the channel of that
  port; the third goroutine has connected the ports.
\<close>

definition cancelled_demo :: "nat sys" where
  "cancelled_demo =
     \<lparr>ins = (\<lambda>a. port0)(0 := \<lparr>data = Some 0, ping = Some [], create = True\<rparr>),
      outs = (\<lambda>a. port0)(0 := \<lparr>data = Some 0, ping = Some [1], create = True\<rparr>),
      chans = [\<lparr>cap = 0, closed = False\<rparr>], ctxs = (\<lambda>k. None)(0 := Some Canceled),
      threads = [Call (Recv 0 0) Entry, Call (Send 0 1 5) (Parked (Some 0)), Ctl []]\<rparr>"

text \<open>
  The same for \<open>Send\<close>: a goroutine that is about to call \<open>Send\<close> with context 0,
  whose deadline has passed, on outbound port 0, while a receiver with another context
  is parked on the channel of that port.
\<close>

definition cancelled_send_demo :: "nat sys" where
  "cancelled_send_demo =
     \<lparr>ins = (\<lambda>a. port0)(0 := \<lparr>data = Some 0, ping = Some [1], create = True\<rparr>),
      outs = (\<lambda>a. port0)(0 := \<lparr>data = Some 0, ping = Some [], create = True\<rparr>),
      chans = [\<lparr>cap = 0, closed = False\<rparr>], ctxs = (\<lambda>k. None)(0 := Some DeadlineExceeded),
      threads = [Call (Send 0 0 5) Entry, Call (Recv 0 1) (Parked (Some 0)), Ctl []]\<rparr>"

text \<open>
  A receiver parked on the channel of inbound port 0, a sender on outbound port 0 that
  has read the same channel and is about to enter its \<open>select\<close>, and the goroutine
  that has connected the two ports.
\<close>

definition wait_demo :: "nat sys" where
  "wait_demo =
     \<lparr>ins = (\<lambda>a. port0)(0 := \<lparr>data = Some 0, ping = Some [0], create = True\<rparr>),
      outs = (\<lambda>a. port0)(0 := \<lparr>data = Some 0, ping = Some [], create = True\<rparr>),
      chans = [\<lparr>cap = 0, closed = False\<rparr>], ctxs = (\<lambda>k. None),
      threads = [Call (Recv 0 0) (Parked (Some 0)), Call (Send 0 0 5) (Select (Some 0)), Ctl []]\<rparr>"

text \<open>
  Three goroutines started on the initial state: a receiver on inbound port 0, a
  controller that connects outbound port 0 to inbound port 0, and a sender of the value
  7 on outbound port 0. In \<open>lost_swap_schedule\<close> the receiver runs up to the operands
  of its second \<open>select\<close> (it reads the nil channel), then the controller runs all of
  \<open>Connect\<close>, then the receiver enters its \<open>select\<close> and parks, then the sender runs
  up to its \<open>select\<close> and parks. \<open>lost_swap_state\<close> is the state after it. In
  \<open>seen_swap_schedule\<close> the receiver parks before \<open>Connect\<close> runs.
\<close>

definition lost_swap_schedule :: "event list" where
  "lost_swap_schedule =
     [Step 0, Step 0, Step 0, Step 0,
      Step 1, Step 1, Step 1, Step 1, Step 1, Step 1, Step 1,
      Park 0,
      Step 2, Step 2, Step 2, Step 2, Park 2]"

definition lost_swap_state :: "nat sys" where
  "lost_swap_state =
     \<lparr>ins = (\<lambda>a. port0)(0 := \<lparr>data = Some 0, ping = Some [0], create = True\<rparr>),
      outs = (\<lambda>a. port0)(0 := \<lparr>data = Some 0, ping = Some [2], create = True\<rparr>),
      chans = [\<lparr>cap = 0, closed = False\<rparr>], ctxs = (\<lambda>k. None),
      threads = [Call (Recv 0 0) (Parked None), Ctl [], Call (Send 0 0 7) (Parked (Some 0))]\<rparr>"

definition seen_swap_schedule :: "event list" where
  "seen_swap_schedule =
     [Step 0, Step 0, Step 0, Step 0, Park 0,
      Step 1, Step 1, Step 1, Step 1, Step 1, Step 1, Step 1,
      Step 0, Step 0, Park 0,
      Step 2, Step 2, Step 2, Step 2, Xfer 0 2]"

text \<open>
  \<open>first := Connect(&out, &in); first.Disconnect(); second := Connect(&out, &in)\<close>
  on the initial state: the handle \<open>first\<close>, and the state after the three calls.
\<close>

definition first_conn :: conn where
  "first_conn = fst (Connect 0 0 (boot ([] :: nat thread list)))"

definition rewired :: "nat sys" where
  "rewired = snd (Connect 0 0 (Disconnect first_conn (snd (Connect 0 0 (boot [])))))"

text \<open>
  Goroutine \<open>t\<close> is a controller, no goroutine binds port \<open>p\<close> to a channel, and
  \<open>p\<close> is unbound or \<open>t\<close> still has to unbind it.
\<close>

definition unbinding :: "tid \<Rightarrow> pref \<Rightarrow> 'a sys \<Rightarrow> bool" where
  "unbinding t p s =
     (t < length (threads s) \<and> quiet p s
      \<and> (\<exists>xs. threads s ! t = Ctl xs \<and> (data (port_at s p) = None \<or> SetP p None \<in> set xs)))"

text \<open>
  Outbound port 0 and inbound port 0 are connected by channel 0, and two goroutines are
  about to run \<open>Disconnect\<close> on that connection; the last goroutine has connected
  the ports. In \<open>cut_wake_demo\<close> a receiver is parked on the channel as well.
\<close>

definition cut_wake_demo :: "nat sys" where
  "cut_wake_demo =
     \<lparr>ins = (\<lambda>a. port0)(0 := \<lparr>data = Some 0, ping = Some [0], create = True\<rparr>),
      outs = (\<lambda>a. port0)(0 := \<lparr>data = Some 0, ping = Some [], create = True\<rparr>),
      chans = [\<lparr>cap = 0, closed = False\<rparr>], ctxs = (\<lambda>k. None),
      threads = [Call (Recv 0 0) (Parked (Some 0)),
                 Ctl (Disconnect_ops \<lparr>from_port = 0, to_port = 0\<rparr>),
                 Ctl (Disconnect_ops \<lparr>from_port = 0, to_port = 0\<rparr>), Ctl []]\<rparr>"

definition cut_twice_demo :: "nat sys" where
  "cut_twice_demo =
     \<lparr>ins = (\<lambda>a. port0)(0 := \<lparr>data = Some 0, ping = Some [], create = True\<rparr>),
      outs = (\<lambda>a. port0)(0 := \<lparr>data = Some 0, ping = Some [], create = True\<rparr>),
      chans = [\<lparr>cap = 0, closed = False\<rparr>], ctxs = (\<lambda>k. None),
      threads = [Ctl (Disconnect_ops \<lparr>from_port = 0, to_port = 0\<rparr>),
                 Ctl (Disconnect_ops \<lparr>from_port = 0, to_port = 0\<rparr>), Ctl []]\<rparr>"

text \<open>
  The schedule of \<open>lost_swap_schedule\<close> with the roles exchanged: goroutine 0 calls
  \<open>Send\<close> with the value 7 on outbound port 0 and reads the nil channel from the port;
  goroutine 1 runs \<open>Connect\<close> to the end; goroutine 0 parks; goroutine 2 calls
  \<open>Recv\<close> on inbound port 0 and parks on the new channel.
\<close>

definition stale_send_schedule :: "event list" where
  "stale_send_schedule =
     [Step 0, Step 0, Step 0, Step 0,
      Step 1, Step 1, Step 1, Step 1, Step 1, Step 1, Step 1,
      Park 0,
      Step 2, Step 2, Step 2, Step 2, Park 2]"

text \<open>
  The state after the first five events of that schedule: the sender has read the nil
  channel and is about to enter its \<open>select\<close>; \<open>Connect\<close> has made channel 0 and
  has its two swaps to run.
\<close>

definition window_demo :: "nat sys" where
  "window_demo =
     \<lparr>ins = (\<lambda>a. port0),
      outs = (\<lambda>a. port0)(0 := \<lparr>data = None, ping = Some [], create = True\<rparr>),
      chans = [\<lparr>cap = 0, closed = False\<rparr>], ctxs = (\<lambda>k. None),
      threads = [Call (Send 0 0 7) (Select None),
                 Ctl (swap_ops (OutP 0) (Some 0) @ swap_ops (InP 0) (Some 0)),
                 Call (Recv 0 0) Entry]\<rparr>"

text \<open>The state at the end of that schedule.\<close>

definition stale_send_state :: "nat sys" where
  "stale_send_state =
     \<lparr>ins = (\<lambda>a. port0)(0 := \<lparr>data = Some 0, ping = Some [2], create = True\<rparr>),
      outs = (\<lambda>a. port0)(0 := \<lparr>data = Some 0, ping = Some [0], create = True\<rparr>),
      chans = [\<lparr>cap = 0, closed = False\<rparr>], ctxs = (\<lambda>k. None),
      threads = [Call (Send 0 0 7) (Parked None), Ctl [], Call (Recv 0 0) (Parked (Some 0))]\<rparr>"

text \<open>
  Networks for \<open>Run\<close>: three components that return nil, error 1 and error 2; and a
  component that never returns beside one that returns error 1.
\<close>

definition three_tasks :: "(unit, nat) network" where
  "three_tasks = \<lparr>components = [\<lambda>ctx. Some None, \<lambda>ctx. Some (Some 1), \<lambda>ctx. Some (Some 2)]\<rparr>"

definition stuck_task :: "(unit, nat) network" where
  "stuck_task = \<lparr>components = [\<lambda>ctx. None, \<lambda>ctx. Some (Some 1)]\<rparr>"

section \<open>Properties\<close>

subsection \<open>What the pieces change\<close>

lemma port_at_port_upd:
  "port_at (port_upd p f s) q = (if q = p then f (port_at s p) else port_at s q)"
  by (cases p; cases q) auto

lemma chans_port_upd [simp]: "chans (port_upd p f s) = chans s"
  by (cases p) auto

lemma ctxs_port_upd [simp]: "ctxs (port_upd p f s) = ctxs s"
  by (cases p) auto

lemma threads_port_upd [simp]: "threads (port_upd p f s) = threads s"
  by (cases p) auto

lemma data_init [simp]: "data (init x) = data x"
  by (simp add: init_def)

lemma data_notify [simp]: "data (port_at (notify p s) q) = data (port_at s q)"
  by (cases p; cases q) (auto simp: notify_def split: option.splits list.splits)

lemma chans_notify [simp]: "chans (notify p s) = chans s"
  by (cases p) (auto simp: notify_def split: option.splits list.splits)

lemma ctxs_notify [simp]: "ctxs (notify p s) = ctxs s"
  by (cases p) (auto simp: notify_def split: option.splits list.splits)

lemma current_swap: "current (swap p d s) q = (if q = p then d else current s q)"
  by (simp add: swap_def current_def port_at_port_upd)

lemma chans_swap [simp]: "chans (swap p d s) = chans s"
  by (simp add: swap_def)

lemma threads_notify_cases:
  "threads (notify p s) = threads s \<or> (\<exists>u. threads (notify p s) = (threads s)[u := wake (threads s ! u)])"
  by (auto simp: notify_def split: option.splits list.splits)

lemma nth_threads_notify:
  "t < length (threads s) \<Longrightarrow>
     threads (notify p s) ! t = threads s ! t \<or> threads (notify p s) ! t = wake (threads s ! t)"
  using threads_notify_cases [of p s] by (metis nth_list_update_eq nth_list_update_neq)

lemma length_threads_notify [simp]: "length (threads (notify p s)) = length (threads s)"
  using threads_notify_cases [of p s] by auto

lemma nth_threads_do_op:
  "t < length (threads s) \<Longrightarrow>
     threads (do_op x s) ! t = threads s ! t \<or> threads (do_op x s) ! t = wake (threads s ! t)"
  by (cases x) (simp_all add: nth_threads_notify)

lemma length_threads_do_op [simp]: "length (threads (do_op x s)) = length (threads s)"
  by (cases x) simp_all

lemma threads_set_thread [simp]: "threads (set_thread t th s) = (threads s)[t := th]"
  by (simp add: set_thread_def)

lemma threads_enqueue [simp]: "threads (enqueue t p s) = threads s"
  by (simp add: enqueue_def)

lemma threads_dequeue [simp]: "threads (dequeue t p s) = threads s"
  by (simp add: dequeue_def)

lemma step_thread_other:
  assumes "step_thread zero u th s = Some s'" "t < length (threads s)" "t \<noteq> u"
  shows "threads s' ! t = threads s ! t \<or> threads s' ! t = wake (threads s ! t)"
proof (cases th)
  case (Call c x)
  with assms show ?thesis by (cases x) (auto split: option.splits)
next
  case (ConnectCall f g)
  with assms show ?thesis by (auto simp: make_chan_def)
next
  case (Ctl xs)
  show ?thesis
  proof (cases xs)
    case Nil
    with Ctl assms show ?thesis by simp
  next
    case (Cons x ys)
    with Ctl assms have "s' = set_thread u (Ctl ys) (do_op x s)" by simp
    with assms nth_threads_do_op [of t s x] show ?thesis by simp
  qed
qed (use assms in auto)

lemma step_thread_length:
  "step_thread zero u th s = Some s' \<Longrightarrow> length (threads s') = length (threads s)"
proof (cases th)
  case (Call c x)
  assume "step_thread zero u th s = Some s'"
  with Call show ?thesis by (cases x) (auto split: option.splits)
next
  case (Ctl xs)
  assume "step_thread zero u th s = Some s'"
  with Ctl show ?thesis by (cases xs) auto
qed (auto simp: make_chan_def)

lemma exec_length:
  "exec zero ev s = Some s' \<Longrightarrow> length (threads s') = length (threads s)"
proof (cases ev)
  case (Step t)
  assume "exec zero ev s = Some s'"
  with Step show ?thesis by (auto split: if_splits dest: step_thread_length)
next
  case (Park t)
  assume "exec zero ev s = Some s'"
  with Park show ?thesis by (auto split: if_splits elim!: park.elims)
next
  case (OnDone t)
  assume "exec zero ev s = Some s'"
  with OnDone show ?thesis by (auto split: if_splits option.splits elim!: on_done.elims)
next
  case (Xfer r w)
  assume "exec zero ev s = Some s'"
  with Xfer show ?thesis by (auto split: if_splits elim!: xfer.elims)
next
  case (OnClosed t)
  assume "exec zero ev s = Some s'"
  with OnClosed show ?thesis by (auto split: if_splits option.splits elim!: on_closed.elims)
next
  case (Cancel k e)
  assume "exec zero ev s = Some s'"
  with Cancel show ?thesis by auto
qed

lemma in_select_cases: "in_select x = Some ch \<Longrightarrow> x = Select ch \<or> x = Parked ch"
  by (cases x) auto

lemma wake_in_select:
  "in_select x = Some ch \<Longrightarrow> wake (Call c x) = Call c x \<or> (x = Parked ch \<and> wake (Call c x) = Call c Drain)"
  by (cases x) auto

lemma all_open_not_closed: "all_open s \<Longrightarrow> \<not> is_closed s d"
  by (auto simp: all_open_def is_closed_def list_all_length)

lemma meet_in_select:
  "meet x y \<Longrightarrow> \<exists>d. in_select x = Some (Some d) \<and> in_select y = Some (Some d)"
  by (induction x y rule: meet.induct) auto

lemma xfer_result:
  assumes "xfer r w thr thw s = Some s'"
  shows "\<exists>p k q k' v x y d. thr = Call (Recv p k) x \<and> thw = Call (Send q k' v) y
           \<and> in_select x = Some (Some d) \<and> in_select y = Some (Some d)
           \<and> threads s' = (threads s)[r := RecvRet v None, w := SendRet None]"
  using assms
  by (induction r w thr thw s rule: xfer.induct) (auto split: if_splits dest: meet_in_select)

lemma select_outcomes_aux:
  assumes ex: "exec zero ev s = Some s'" and t: "t < length (threads s)"
      and th: "threads s ! t = Call c x" and x: "in_select x = Some ch"
      and op: "all_open s"
  shows "threads s' ! t = Call c x
       \<or> threads s' ! t = Call c (Parked ch)
       \<or> (\<exists>d p k w q k' v. ch = Some d \<and> c = Recv p k \<and> w < length (threads s)
             \<and> (\<exists>y. threads s ! w = Call (Send q k' v) y \<and> in_select y = Some (Some d))
             \<and> threads s' ! t = RecvRet v None \<and> threads s' ! w = SendRet None)
       \<or> (\<exists>d p k v r q k'. ch = Some d \<and> c = Send p k v \<and> r < length (threads s)
             \<and> (\<exists>y. threads s ! r = Call (Recv q k') y \<and> in_select y = Some (Some d))
             \<and> threads s' ! t = SendRet None \<and> threads s' ! r = RecvRet v None)
       \<or> (\<exists>e. ctxs s (ctx_of c) = Some e \<and> threads s' ! t = ret_err zero c e)
       \<or> (x = Parked ch \<and> threads s' ! t = Call c Drain)"
proof (cases ev)
  case (Step u)
  show ?thesis
  proof (cases "u = t")
    case True
    with Step ex t th x show ?thesis by (cases x) auto
  next
    case False
    from Step ex t have "step_thread zero u (threads s ! u) s = Some s'" by (auto split: if_splits)
    with t False have "threads s' ! t = threads s ! t \<or> threads s' ! t = wake (threads s ! t)"
      using step_thread_other [of zero u "threads s ! u" s s' t] by auto
    with th wake_in_select [OF x, of c] show ?thesis by auto
  qed
next
  case (Park u)
  with ex t th x show ?thesis
    by (cases "u = t") (auto split: if_splits elim!: park.elims)
next
  case (OnDone u)
  with ex t th x show ?thesis
    by (cases "u = t") (auto split: if_splits option.splits elim!: on_done.elims)
next
  case (Xfer r w)
  with ex have rw: "r < length (threads s)" "w < length (threads s)"
    and xf: "xfer r w (threads s ! r) (threads s ! w) s = Some s'"
    by (auto split: if_splits)
  from xfer_result [OF xf] obtain p k q k' v xr yw d where
    r: "threads s ! r = Call (Recv p k) xr" and w: "threads s ! w = Call (Send q k' v) yw"
    and xr: "in_select xr = Some (Some d)" and yw: "in_select yw = Some (Some d)"
    and s': "threads s' = (threads s)[r := RecvRet v None, w := SendRet None]"
    by blast
  from r w have ne: "r \<noteq> w" by auto
  consider "t = r" | "t = w" | "t \<noteq> r" "t \<noteq> w" by blast
  then show ?thesis
  proof cases
    case 1
    with r th x xr have "c = Recv p k" "ch = Some d" by auto
    moreover from 1 s' ne rw have "threads s' ! t = RecvRet v None" "threads s' ! w = SendRet None"
      by auto
    ultimately show ?thesis using w yw rw by blast
  next
    case 2
    with w th x yw have "c = Send q k' v" "ch = Some d" by auto
    moreover from 2 s' ne rw have "threads s' ! t = SendRet None" "threads s' ! r = RecvRet v None"
      by auto
    ultimately show ?thesis using r xr rw by blast
  next
    case 3
    with s' th show ?thesis by simp
  qed
next
  case (OnClosed u)
  with ex t th x all_open_not_closed [OF op] show ?thesis
    by (cases "u = t") (auto split: if_splits option.splits elim!: on_closed.elims)
next
  case (Cancel k e)
  with ex th show ?thesis by auto
qed

subsection \<open>What an event changes in a goroutine\<close>

lemma exec_other:
  assumes ex: "exec zero ev s = Some s'" and t: "t < length (threads s)" and nt: "t \<notin> set (actors ev)"
  shows "threads s' ! t = threads s ! t \<or> threads s' ! t = wake (threads s ! t)"
proof (cases ev)
  case (Step u)
  with ex have "step_thread zero u (threads s ! u) s = Some s'" by (auto split: if_splits)
  with t nt Step show ?thesis
    using step_thread_other [of zero u "threads s ! u" s s' t] by auto
next
  case (Park u)
  with ex nt show ?thesis by (auto split: if_splits elim!: park.elims)
next
  case (OnDone u)
  with ex nt show ?thesis by (auto split: if_splits option.splits elim!: on_done.elims)
next
  case (Xfer r w)
  with ex have "xfer r w (threads s ! r) (threads s ! w) s = Some s'" by (auto split: if_splits)
  from xfer_result [OF this] Xfer nt show ?thesis by auto
next
  case (OnClosed u)
  with ex nt show ?thesis by (auto split: if_splits option.splits elim!: on_closed.elims)
next
  case (Cancel k e)
  with ex show ?thesis by auto
qed

lemma zero_on_error_wake [simp]: "zero_on_error zero (wake th) = zero_on_error zero th"
  by (induction th rule: wake.induct) auto

lemma zero_on_error_ret_err [simp]: "zero_on_error zero (ret_err zero c e)"
  by (cases c) auto

lemma step_thread_self:
  assumes "step_thread zero t th s = Some s'" "t < length (threads s)"
  shows "(\<exists>c. th = Call c Entry \<and> (case ctxs s (ctx_of c) of Some e \<Rightarrow> threads s' ! t = ret_err zero c e | None \<Rightarrow> threads s' ! t = Call c Init))
       \<or> (\<exists>c. th = Call c Init \<and> threads s' ! t = Call c Drain)
       \<or> (\<exists>c. th = Call c Drain \<and> threads s' ! t = Call c Eval)
       \<or> (\<exists>c. th = Call c Eval \<and> threads s' ! t = Call c (Select (current s (pref_of c))))
       \<or> (\<exists>f g. th = ConnectCall f g \<and> threads s' ! t = Ctl (swap_ops (OutP f) (Some (length (chans s))) @ swap_ops (InP g) (Some (length (chans s)))))
       \<or> (\<exists>x xs. th = Ctl (x # xs) \<and> threads s' ! t = Ctl xs)"
proof (cases th)
  case (Call c x)
  with assms show ?thesis by (cases x) (auto split: option.splits)
next
  case (ConnectCall f g)
  with assms show ?thesis by (auto simp: make_chan_def)
next
  case (Ctl xs)
  with assms show ?thesis by (cases xs) auto
qed (use assms in auto)

lemma exec_zero_on_error:
  assumes ex: "exec zero ev s = Some s'" and t: "t < length (threads s)"
      and ok: "zero_on_error zero (threads s ! t)"
  shows "zero_on_error zero (threads s' ! t)"
proof (cases "t \<in> set (actors ev)")
  case False
  from exec_other [OF ex t False] ok show ?thesis by auto
next
  case True
  show ?thesis
  proof (cases ev)
    case (Step u)
    with True ex t have "step_thread zero t (threads s ! t) s = Some s'" by (auto split: if_splits)
    from step_thread_self [OF this t] show ?thesis by (auto split: option.splits)
  next
    case (Park u)
    with True ex t show ?thesis by (auto split: if_splits elim!: park.elims)
  next
    case (OnDone u)
    with True ex t show ?thesis by (auto split: if_splits option.splits elim!: on_done.elims)
  next
    case (Xfer r w)
    with ex have rw: "r < length (threads s)" "w < length (threads s)"
      and "xfer r w (threads s ! r) (threads s ! w) s = Some s'" by (auto split: if_splits)
    from xfer_result [OF this(3)] obtain v where
      "threads s' = (threads s)[r := RecvRet v None, w := SendRet None]" by blast
    with True Xfer rw show ?thesis by (cases "r = w") auto
  next
    case (OnClosed u)
    with True ex t show ?thesis
      by (auto split: if_splits option.splits call.splits elim!: on_closed.elims)
  next
    case (Cancel k e)
    with True show ?thesis by simp
  qed
qed

lemma run_zero_on_error:
  "run zero evs s = Some s' \<Longrightarrow> t < length (threads s) \<Longrightarrow> zero_on_error zero (threads s ! t)
     \<Longrightarrow> zero_on_error zero (threads s' ! t)"
proof (induction evs arbitrary: s)
  case Nil
  then show ?case by simp
next
  case (Cons ev evs)
  then obtain s1 where s1: "exec zero ev s = Some s1" and r: "run zero evs s1 = Some s'"
    by (auto split: option.splits)
  from exec_length [OF s1] Cons.prems have "t < length (threads s1)" by simp
  moreover from exec_zero_on_error [OF s1] Cons.prems have "zero_on_error zero (threads s1 ! t)" by simp
  ultimately show ?case using Cons.IH [OF r] by simp
qed

subsection \<open>A port that nobody binds stays unbound\<close>

lemma may_install_wake [simp]: "may_install p (wake th) = may_install p th"
  by (induction th rule: wake.induct) auto

lemma data_do_op:
  "\<not> installs p x \<Longrightarrow> data (port_at s p) = None \<Longrightarrow> data (port_at (do_op x s) p) = None"
proof (cases x)
  case (SetP p' d)
  assume "\<not> installs p x" "data (port_at s p) = None"
  with SetP show ?thesis by (cases d) (auto simp: port_at_port_upd)
qed (auto simp: port_at_port_upd)

lemma quiet_nth: "quiet p s \<Longrightarrow> u < length (threads s) \<Longrightarrow> \<not> may_install p (threads s ! u)"
  by (auto simp: quiet_def list_ex_iff)

lemma quiet_update:
  "quiet p s \<Longrightarrow> threads s' = (threads s)[u := th] \<Longrightarrow> \<not> may_install p th \<Longrightarrow> quiet p s'"
  by (auto simp: quiet_def list_ex_iff dest!: set_update_subset_insert [THEN subsetD])

lemma quiet_threads: "quiet p s \<Longrightarrow> threads s' = threads s \<Longrightarrow> quiet p s'"
  by (simp add: quiet_def)

lemma quiet_notify: "quiet p s \<Longrightarrow> quiet p (notify q s)"
proof -
  assume q: "quiet p s"
  from threads_notify_cases [of q s] show ?thesis
  proof
    assume "threads (notify q s) = threads s"
    with q show ?thesis by (simp add: quiet_def)
  next
    assume "\<exists>u. threads (notify q s) = (threads s)[u := wake (threads s ! u)]"
    then obtain u where u: "threads (notify q s) = (threads s)[u := wake (threads s ! u)]" ..
    show ?thesis
    proof (cases "u < length (threads s)")
      case True
      with q have "\<not> may_install p (wake (threads s ! u))" by (simp add: quiet_nth)
      with q u show ?thesis by (rule quiet_update)
    next
      case False
      with u have "threads (notify q s) = threads s" by (simp add: list_update_beyond)
      with q show ?thesis by (simp add: quiet_def)
    qed
  qed
qed

lemma quiet_do_op: "quiet p s \<Longrightarrow> quiet p (do_op x s)"
  by (cases x) (auto simp: quiet_notify elim: quiet_threads)

lemma data_enqueue [simp]: "data (port_at (enqueue t q s) p) = data (port_at s p)"
  by (simp add: enqueue_def port_at_port_upd)

lemma data_dequeue [simp]: "data (port_at (dequeue t q s) p) = data (port_at s p)"
  by (simp add: dequeue_def port_at_port_upd)

lemma port_at_set_thread [simp]: "port_at (set_thread t th s) p = port_at s p"
  by (cases p) (simp_all add: set_thread_def)

lemma ins_set_thread [simp]: "ins (set_thread t th s) = ins s"
  by (simp add: set_thread_def)

lemma outs_set_thread [simp]: "outs (set_thread t th s) = outs s"
  by (simp add: set_thread_def)

lemma chans_set_thread [simp]: "chans (set_thread t th s) = chans s"
  by (simp add: set_thread_def)

lemma ctxs_set_thread [simp]: "ctxs (set_thread t th s) = ctxs s"
  by (simp add: set_thread_def)

lemma ctxs_do_op [simp]: "ctxs (do_op x s) = ctxs s"
  by (cases x) simp_all

lemma ctxs_enqueue [simp]: "ctxs (enqueue t p s) = ctxs s"
  by (simp add: enqueue_def)

lemma ctxs_dequeue [simp]: "ctxs (dequeue t p s) = ctxs s"
  by (simp add: dequeue_def)



lemma exec_data_None:
  assumes ex: "exec zero ev s = Some s'" and q: "quiet p s" and d: "data (port_at s p) = None"
  shows "data (port_at s' p) = None"
proof (cases ev)
  case (Step u)
  with ex have u: "u < length (threads s)" and st: "step_thread zero u (threads s ! u) s = Some s'"
    by (auto split: if_splits)
  show ?thesis
  proof (cases "threads s ! u")
    case (Call c x)
    with st d show ?thesis by (cases x) (auto simp: port_at_port_upd split: option.splits)
  next
    case (ConnectCall f g)
    with st d show ?thesis by (cases p) (auto simp: make_chan_def)
  next
    case (Ctl xs)
    show ?thesis
    proof (cases xs)
      case Nil
      with Ctl st show ?thesis by simp
    next
      case (Cons x ys)
      with Ctl quiet_nth [OF q u] have "\<not> installs p x" by simp
      from data_do_op [OF this d] Cons Ctl st show ?thesis by auto
    qed
  qed (use st in auto)
next
  case (Park u)
  with ex d show ?thesis by (auto split: if_splits elim!: park.elims)
next
  case (OnDone u)
  with ex d show ?thesis by (auto split: if_splits option.splits elim!: on_done.elims)
next
  case (Xfer r w)
  with ex d show ?thesis by (auto split: if_splits elim!: xfer.elims)
next
  case (OnClosed u)
  with ex d show ?thesis by (auto split: if_splits option.splits elim!: on_closed.elims)
next
  case (Cancel k e)
  with ex d show ?thesis by (cases p) auto
qed

lemma quiet_set_thread:
  "quiet p s \<Longrightarrow> \<not> may_install p th \<Longrightarrow> quiet p (set_thread t th s)"
  by (rule quiet_update [where u = t and th = th]) simp_all

lemma quiet_port_upd [simp]: "quiet p (port_upd q f s) = quiet p s"
  by (simp add: quiet_def)

lemma quiet_enqueue [simp]: "quiet p (enqueue t q s) = quiet p s"
  by (simp add: quiet_def)

lemma quiet_dequeue [simp]: "quiet p (dequeue t q s) = quiet p s"
  by (simp add: quiet_def)

lemma may_install_ret_err [simp]: "\<not> may_install p (ret_err zero c e)"
  by (cases c) auto

lemma exec_quiet:
  assumes ex: "exec zero ev s = Some s'" and q: "quiet p s"
  shows "quiet p s'"
proof (cases ev)
  case (Step u)
  with ex have u: "u < length (threads s)" and st: "step_thread zero u (threads s ! u) s = Some s'"
    by (auto split: if_splits)
  show ?thesis
  proof (cases "threads s ! u")
    case (Call c x)
    with st q show ?thesis by (cases x) (auto intro!: quiet_set_thread split: option.splits)
  next
    case (ConnectCall f g)
    with quiet_nth [OF q u] have "p \<noteq> OutP f" "p \<noteq> InP g" by auto
    then have "\<not> may_install p (Ctl (swap_ops (OutP f) (Some (length (chans s))) @ swap_ops (InP g) (Some (length (chans s)))))"
      by (auto simp: swap_ops_def)
    moreover from q have "quiet p (s\<lparr>chans := chans s @ [\<lparr>cap = 0, closed = False\<rparr>]\<rparr>)"
      by (simp add: quiet_def)
    ultimately show ?thesis using ConnectCall st by (auto simp: make_chan_def intro!: quiet_set_thread)
  next
    case (Ctl xs)
    show ?thesis
    proof (cases xs)
      case Nil
      with Ctl st show ?thesis by simp
    next
      case (Cons x ys)
      with Ctl quiet_nth [OF q u] have "\<not> may_install p (Ctl ys)" by simp
      with quiet_do_op [OF q, of x] Cons Ctl st show ?thesis by (auto intro!: quiet_set_thread)
    qed
  qed (use st in auto)
next
  case (Park u)
  with ex q show ?thesis by (auto split: if_splits elim!: park.elims intro!: quiet_set_thread)
next
  case (OnDone u)
  with ex q show ?thesis
    by (auto split: if_splits option.splits elim!: on_done.elims intro!: quiet_set_thread)
next
  case (Xfer r w)
  with ex q show ?thesis by (auto split: if_splits elim!: xfer.elims intro!: quiet_set_thread)
next
  case (OnClosed u)
  with ex q show ?thesis
    by (auto split: if_splits option.splits call.splits elim!: on_closed.elims intro!: quiet_set_thread)
next
  case (Cancel k e)
  with ex q show ?thesis by (auto simp: quiet_def)
qed


lemma wake_ret_err [simp]: "wake (ret_err zero c e) = ret_err zero c e"
  by (cases c) auto


lemma step_thread_ret_err [simp]: "step_thread zero t (ret_err zero' c e) s = None"
  by (cases c) auto

lemma exec_ret_err:
  assumes ex: "exec zero ev s = Some s'" and t: "t < length (threads s)"
      and th: "threads s ! t = ret_err zero c e"
  shows "threads s' ! t = ret_err zero c e"
proof (cases "t \<in> set (actors ev)")
  case False
  from exec_other [OF ex t False] th show ?thesis by auto
next
  case True
  with ex t th show ?thesis
    by (cases ev; cases c) (auto split: if_splits)
qed




subsection \<open>The pieces of a swap, run in a row\<close>

lemma port_upd_set_thread: "port_upd p f (set_thread t th s) = set_thread t th (port_upd p f s)"
  by (cases p) (simp_all add: set_thread_def)

lemma set_thread_twice [simp]: "set_thread t a (set_thread t b s) = set_thread t a s"
  by (simp add: set_thread_def)

lemma set_thread_notify:
  "set_thread t th (notify p (set_thread t th' s)) = set_thread t th (notify p s)"
proof (cases "ping (port_at s p)")
  case None
  then show ?thesis by (simp add: notify_def)
next
  case (Some q)
  show ?thesis
  proof (cases q)
    case Nil
    with Some show ?thesis by (simp add: notify_def)
  next
    case (Cons u q')
    show ?thesis
    proof (cases "u = t")
      case True
      with Some Cons show ?thesis
        by (cases p) (simp_all add: notify_def set_thread_def)
    next
      case False
      with Some Cons show ?thesis
        by (cases p) (simp_all add: notify_def set_thread_def list_update_swap [of t u])
    qed
  qed
qed

lemma run_swap_ops:
  assumes "t < length (threads s)" "threads s ! t = Ctl (swap_ops p d @ xs)"
  shows "run zero [Step t, Step t, Step t] s = Some (set_thread t (Ctl xs) (swap p d s))"
  using assms
  by (simp add: swap_ops_def swap_def port_upd_set_thread set_thread_notify)

lemma threads_swap: "threads (swap p d s) = threads (notify p (port_upd p (\<lambda>x. x\<lparr>data := d\<rparr>) (port_upd p init s)))"
  by (simp add: swap_def)

lemma notify_wakes_one:
  "threads (notify p s) = threads s
   \<or> (\<exists>u c ch. u < length (threads s) \<and> threads s ! u = Call c (Parked ch)
         \<and> threads (notify p s) = (threads s)[u := Call c Drain])"
proof -
  from threads_notify_cases [of p s] show ?thesis
  proof
    assume "\<exists>u. threads (notify p s) = (threads s)[u := wake (threads s ! u)]"
    then obtain u where u: "threads (notify p s) = (threads s)[u := wake (threads s ! u)]" ..
    show ?thesis
    proof (cases "u < length (threads s)")
      case True
      show ?thesis
      proof (cases "wake (threads s ! u) = threads s ! u")
        case True
        with u show ?thesis by (simp add: list_update_id)
      next
        case False
        then obtain c ch where "threads s ! u = Call c (Parked ch)"
          by (cases "threads s ! u" rule: wake.cases) auto
        with u True show ?thesis by auto
      qed
    next
      case False
      with u show ?thesis by (simp add: list_update_beyond)
    qed
  qed simp
qed

lemma notify_no_listener:
  "ping (port_at s p) = None \<or> ping (port_at s p) = Some [] \<Longrightarrow> notify p s = s"
  by (auto simp: notify_def)

lemma create_swap: "create (port_at (swap p d s) p)"
proof -
  have "create (port_at (port_upd p (\<lambda>x. x\<lparr>data := d\<rparr>) (port_upd p init s)) p)"
    by (simp add: port_at_port_upd init_def)
  moreover have "create (port_at (notify p s') p) = create (port_at s' p)" for s' :: "'a sys"
    by (cases p) (auto simp: notify_def split: option.splits list.splits)
  ultimately show ?thesis by (simp add: swap_def)
qed

lemma swap_no_listener:
  assumes "ping (port_at s p) = None \<or> ping (port_at s p) = Some []"
  shows "swap p d s = port_upd p (\<lambda>x. (init x)\<lparr>data := d\<rparr>) s"
proof -
  let ?s2 = "port_upd p (\<lambda>x. x\<lparr>data := d\<rparr>) (port_upd p init s)"
  from assms have "ping (port_at ?s2 p) = None \<or> ping (port_at ?s2 p) = Some []"
    by (auto simp: port_at_port_upd init_def)
  then have "notify p ?s2 = ?s2" by (rule notify_no_listener)
  moreover have "?s2 = port_upd p (\<lambda>x. (init x)\<lparr>data := d\<rparr>) s" by (cases p) simp_all
  ultimately show ?thesis by (simp add: swap_def)
qed

subsection \<open>The queue of ping holds the parked goroutines\<close>

lemma parked_on_in_loop: "parked_on p th \<Longrightarrow> in_loop p th"
  by (induction p th rule: parked_on.induct) auto

lemma parked_set_set_thread:
  "t < length (threads s) \<Longrightarrow>
     parked_set (set_thread t th s) p
       = (if parked_on p th then insert t (parked_set s p) else parked_set s p - {t})"
  by (auto simp: parked_set_def nth_list_update)

lemma parked_set_threads: "threads s' = threads s \<Longrightarrow> parked_set s' p = parked_set s p"
  by (simp add: parked_set_def)

lemma list_all_update: "list_all P xs \<Longrightarrow> P y \<Longrightarrow> list_all P (xs[t := y])"
  by (auto simp: list_all_iff dest: set_update_subset_insert [THEN subsetD])

lemma queue_ok_None_not_parked:
  "queue_ok s p \<Longrightarrow> ping (port_at s p) = None \<Longrightarrow> t < length (threads s) \<Longrightarrow> \<not> in_loop p (threads s ! t)"
  by (auto simp: queue_ok_def list_all_length)

lemma queue_ok_set_thread_neutral:
  assumes "queue_ok s p" and "t < length (threads s)"
      and "\<not> in_loop p th" and "\<not> parked_on p (threads s ! t)"
  shows "queue_ok (set_thread t th s) p"
proof -
  from assms(3) have np: "\<not> parked_on p th" using parked_on_in_loop by blast
  from assms(4) have "t \<notin> parked_set s p" by (simp add: parked_set_def)
  with np assms(2) have "parked_set (set_thread t th s) p = parked_set s p"
    by (simp add: parked_set_set_thread)
  with assms(1,3) show ?thesis
    by (auto simp: queue_ok_def list_all_update split: option.splits)
qed


lemma queue_ok_set_thread:
  assumes "queue_ok s p" and "t < length (threads s)"
      and "\<not> parked_on p th" and "\<not> parked_on p (threads s ! t)"
      and "in_loop p th \<longrightarrow> ping (port_at s p) \<noteq> None"
  shows "queue_ok (set_thread t th s) p"
proof -
  from assms(4) have "t \<notin> parked_set s p" by (simp add: parked_set_def)
  with assms(2,3) have "parked_set (set_thread t th s) p = parked_set s p"
    by (simp add: parked_set_set_thread)
  with assms(1,5) show ?thesis
    by (auto simp: queue_ok_def list_all_update split: option.splits)
qed

lemma queue_ok_in_loop:
  "queue_ok s p \<Longrightarrow> t < length (threads s) \<Longrightarrow> in_loop p (threads s ! t)
     \<Longrightarrow> \<exists>q. ping (port_at s p) = Some q"
  by (auto simp: queue_ok_def list_all_length split: option.splits)

lemma queue_ok_frame:
  "port_at s' p = port_at s p \<Longrightarrow> threads s' = threads s \<Longrightarrow> queue_ok s' p = queue_ok s p"
  by (simp add: queue_ok_def parked_set_def split: option.splits)

lemma queue_ok_init:
  assumes "queue_ok s p"
  shows "queue_ok (port_upd q init s) p"
proof (cases "q = p")
  case False
  then have "port_at (port_upd q init s) p = port_at s p" by (simp add: port_at_port_upd)
  with assms show ?thesis using queue_ok_frame [of "port_upd q init s" p s] by simp
next
  case True
  show ?thesis
  proof (cases "create (port_at s p)")
    case c: True
    with True have "port_at (port_upd q init s) p = port_at s p"
      by (simp add: port_at_port_upd init_def)
    with assms show ?thesis using queue_ok_frame [of "port_upd q init s" p s] by simp
  next
    case c: False
    with assms have l: "list_all (\<lambda>th. \<not> in_loop p th) (threads s)"
      by (auto simp: queue_ok_def split: option.splits)
    have "parked_set s p = {}"
    proof -
      have "\<not> parked_on p (threads s ! t)" if "t < length (threads s)" for t
        using l that parked_on_in_loop [of p "threads s ! t"] by (auto simp: list_all_length)
      then show ?thesis unfolding parked_set_def by blast
    qed
    moreover have "parked_set (port_upd q init s) p = parked_set s p"
      by (rule parked_set_threads) simp
    moreover from c True have "port_at (port_upd q init s) p = (port_at s p)\<lparr>ping := Some [], create := True\<rparr>"
      by (simp add: port_at_port_upd init_def)
    ultimately show ?thesis unfolding queue_ok_def by simp
  qed
qed

lemma queue_ok_data [simp]: "queue_ok (port_upd q (\<lambda>x. x\<lparr>data := d\<rparr>) s) p = queue_ok s p"
  by (cases "p = q") (simp_all add: queue_ok_def port_at_port_upd parked_set_def split: option.splits)

lemma parked_on_unique: "parked_on p th \<Longrightarrow> parked_on q th \<Longrightarrow> p = q"
  by (induction p th rule: parked_on.induct) auto

lemma parked_on_wake: "parked_on p th \<Longrightarrow> \<not> parked_on q (wake th) \<and> (in_loop q (wake th) \<longrightarrow> q = p)"
  by (induction p th rule: parked_on.induct) auto

lemma queues_ok_notify:
  assumes "queues_ok s"
  shows "queues_ok (notify q s)"
proof (cases "ping (port_at s q)")
  case None
  with assms show ?thesis by (simp add: notify_def)
next
  case (Some r)
  show ?thesis
  proof (cases r)
    case Nil
    with Some assms show ?thesis by (simp add: notify_def)
  next
    case (Cons u r')
    let ?s1 = "port_upd q (\<lambda>x. x\<lparr>ping := Some r'\<rparr>) s"
    from Some Cons have n: "notify q s = set_thread u (wake (threads s ! u)) ?s1"
      by (simp add: notify_def set_thread_def)
    from assms have wq: "queue_ok s q" by (simp add: queues_ok_def)
    with Some Cons have cr: "create (port_at s q)" and d: "distinct (u # r')"
      and st: "set (u # r') = parked_set s q"
      by (auto simp: queue_ok_def)
    from st have u: "u < length (threads s)" and pu: "parked_on q (threads s ! u)"
      by (auto simp: parked_set_def)
    have "queue_ok (notify q s) p" for p
    proof (cases "p = q")
      case True
      from parked_on_wake [OF pu] have np: "\<not> parked_on q (wake (threads s ! u))" by blast
      from u np have "parked_set (set_thread u (wake (threads s ! u)) ?s1) q = parked_set ?s1 q - {u}"
        by (simp add: parked_set_set_thread)
      also have "parked_set ?s1 q = parked_set s q" by (simp add: parked_set_def)
      finally have "parked_set (notify q s) q = set r'" using st d n by auto
      with True cr d n show ?thesis by (simp add: queue_ok_def port_at_port_upd)
    next
      case False
      from assms have wp: "queue_ok s p" by (simp add: queues_ok_def)
      from False have "port_at ?s1 p = port_at s p" by (simp add: port_at_port_upd)
      with wp have w1: "queue_ok ?s1 p" using queue_ok_frame [of ?s1 p s] by simp
      from parked_on_wake [OF pu, of p] False
      have a: "\<not> parked_on p (wake (threads s ! u))" "\<not> in_loop p (wake (threads s ! u))" by auto
      from pu False have b: "\<not> parked_on p (threads s ! u)" using parked_on_unique by blast
      from w1 u a b have "queue_ok (set_thread u (wake (threads s ! u)) ?s1) p"
        by (intro queue_ok_set_thread) simp_all
      with n show ?thesis by simp
    qed
    then show ?thesis by (simp add: queues_ok_def)
  qed
qed

lemma queue_ok_park:
  assumes w: "queue_ok s p" and t: "t < length (threads s)" and th: "threads s ! t = Call c (Select ch)"
  shows "queue_ok (set_thread t (Call c (Parked ch)) (enqueue t (pref_of c) s)) p"
proof (cases "p = pref_of c")
  case False
  have "port_at (enqueue t (pref_of c) s) p = port_at s p"
    using False by (simp add: enqueue_def port_at_port_upd)
  with w have "queue_ok (enqueue t (pref_of c) s) p"
    using queue_ok_frame [of "enqueue t (pref_of c) s" p s] by simp
  with t th False show ?thesis by (intro queue_ok_set_thread) auto
next
  case True
  from th True have "in_loop p (threads s ! t)" by simp
  from queue_ok_in_loop [OF w t this] obtain q where q: "ping (port_at s p) = Some q" ..
  with w have cr: "create (port_at s p)" and d: "distinct q" and st: "set q = parked_set s p"
    by (auto simp: queue_ok_def)
  from th have "t \<notin> parked_set s p" by (simp add: parked_set_def)
  with st have tq: "t \<notin> set q" by simp
  let ?s1 = "enqueue t (pref_of c) s"
  from q True have q1: "ping (port_at ?s1 p) = Some (q @ [t])" and c1: "create (port_at ?s1 p)"
    using cr by (simp_all add: enqueue_def port_at_port_upd)
  have "parked_set (set_thread t (Call c (Parked ch)) ?s1) p = insert t (parked_set ?s1 p)"
    using t True by (simp add: parked_set_set_thread)
  also have "parked_set ?s1 p = parked_set s p" by (rule parked_set_threads) simp
  finally have "parked_set (set_thread t (Call c (Parked ch)) ?s1) p = set (q @ [t])"
    using st by simp
  with q1 c1 d tq show ?thesis by (simp add: queue_ok_def)
qed

lemma queue_ok_leave:
  assumes w: "queue_ok s p" and t: "t < length (threads s)"
      and th: "threads s ! t = Call c x" and new: "\<And>p'. \<not> in_loop p' th'"
  shows "queue_ok (set_thread t th' (dequeue t (pref_of c) s)) p"
proof (cases "p = pref_of c")
  case False
  have "port_at (dequeue t (pref_of c) s) p = port_at s p"
    using False by (simp add: dequeue_def port_at_port_upd)
  with w have "queue_ok (dequeue t (pref_of c) s) p"
    using queue_ok_frame [of "dequeue t (pref_of c) s" p s] by simp
  moreover from th False have "\<not> parked_on p (threads s ! t)"
    by (cases x) auto
  moreover from new have "\<not> parked_on p th'" using parked_on_in_loop by blast
  ultimately show ?thesis using t new by (intro queue_ok_set_thread) auto
next
  case True
  let ?s1 = "dequeue t (pref_of c) s"
  from new have np: "\<not> parked_on p th'" using parked_on_in_loop by blast
  have ps: "parked_set (set_thread t th' ?s1) p = parked_set s p - {t}"
  proof -
    have "parked_set (set_thread t th' ?s1) p = parked_set ?s1 p - {t}"
      using t np by (simp add: parked_set_set_thread)
    also have "parked_set ?s1 p = parked_set s p" by (rule parked_set_threads) simp
    finally show ?thesis .
  qed
  show ?thesis
  proof (cases "ping (port_at s p)")
    case None
    with w have "\<not> create (port_at s p)" "list_all (\<lambda>th. \<not> in_loop p th) (threads s)"
      by (auto simp: queue_ok_def)
    with None True new show ?thesis
      by (simp add: queue_ok_def dequeue_def port_at_port_upd list_all_update)
  next
    case (Some q)
    with w have "create (port_at s p)" "distinct q" "set q = parked_set s p"
      by (auto simp: queue_ok_def)
    with Some True ps show ?thesis
      by (auto simp: queue_ok_def dequeue_def port_at_port_upd distinct_removeAll)
  qed
qed

lemma queues_ok_set_thread_returned:
  assumes "queues_ok s" and "t < length (threads s)" and "threads s ! t = Call c x" and "\<And>p'. \<not> in_loop p' th'"
  shows "queues_ok (set_thread t th' (dequeue t (pref_of c) s))"
  using assms by (simp add: queues_ok_def queue_ok_leave)

lemma in_loop_ret_err [simp]: "\<not> in_loop p (ret_err zero c e)"
  by (cases c) auto

lemma port_at_chans [simp]: "port_at (s\<lparr>chans := cs\<rparr>) p = port_at s p"
  by (cases p) simp_all

lemma port_at_ctxs [simp]: "port_at (s\<lparr>ctxs := cs\<rparr>) p = port_at s p"
  by (cases p) simp_all

lemma queues_ok_chans [simp]: "queues_ok (s\<lparr>chans := cs\<rparr>) = queues_ok s"
  using queue_ok_frame [of "s\<lparr>chans := cs\<rparr>" _ s] by (simp add: queues_ok_def)

lemma queues_ok_ctxs [simp]: "queues_ok (s\<lparr>ctxs := cs\<rparr>) = queues_ok s"
  using queue_ok_frame [of "s\<lparr>ctxs := cs\<rparr>" _ s] by (simp add: queues_ok_def)

lemma queues_ok_set_thread:
  assumes "queues_ok s" and "t < length (threads s)"
      and "\<And>p. \<not> parked_on p th" and "\<And>p. \<not> parked_on p (threads s ! t)"
      and "\<And>p. in_loop p th \<longrightarrow> ping (port_at s p) \<noteq> None"
  shows "queues_ok (set_thread t th s)"
  using assms by (simp add: queues_ok_def queue_ok_set_thread)

lemma queues_ok_init: "queues_ok s \<Longrightarrow> queues_ok (port_upd q init s)"
  by (simp add: queues_ok_def queue_ok_init)

lemma queues_ok_data: "queues_ok s \<Longrightarrow> queues_ok (port_upd q (\<lambda>x. x\<lparr>data := d\<rparr>) s)"
  by (simp add: queues_ok_def)

lemma queues_ok_do_op: "queues_ok s \<Longrightarrow> queues_ok (do_op x s)"
  by (cases x) (simp_all add: queues_ok_init queues_ok_data queues_ok_notify)

lemma ping_after_init:
  assumes "queue_ok s p"
  shows "ping (port_at (port_upd p init s) p) \<noteq> None"
  using assms by (auto simp: queue_ok_def port_at_port_upd init_def split: option.splits)

lemma queues_ok_in_loop_ping:
  "queues_ok s \<Longrightarrow> t < length (threads s) \<Longrightarrow> in_loop p (threads s ! t) \<Longrightarrow> ping (port_at s p) \<noteq> None"
  using queue_ok_in_loop [of s p t] by (auto simp: queues_ok_def)

lemma step_thread_queues_ok:
  assumes st: "step_thread zero u th s = Some s'" and w: "queues_ok s"
      and u: "u < length (threads s)" and th: "threads s ! u = th"
  shows "queues_ok s'"
proof (cases th)
  case (Call c x)
  show ?thesis
  proof (cases x)
    case Entry
    with Call st have s': "s' = set_thread u (case ctxs s (ctx_of c) of Some e \<Rightarrow> ret_err zero c e | None \<Rightarrow> Call c Init) s"
      by simp
    show ?thesis unfolding s' using w u th Call Entry
      by (intro queues_ok_set_thread) (auto split: option.splits dest: parked_on_in_loop)
  next
    case Init
    with Call st have s': "s' = set_thread u (Call c Drain) (port_upd (pref_of c) init s)" by simp
    from w have "queue_ok s (pref_of c)" by (simp add: queues_ok_def)
    from ping_after_init [OF this] show ?thesis unfolding s' using w u th Call Init
      by (intro queues_ok_set_thread queues_ok_init) auto
  next
    case Drain
    with Call st have s': "s' = set_thread u (Call c Eval) s" by simp
    from th Call Drain have "in_loop (pref_of c) (threads s ! u)" by simp
    from queues_ok_in_loop_ping [OF w u this] show ?thesis unfolding s' using w u th Call Drain
      by (intro queues_ok_set_thread) auto
  next
    case Eval
    with Call st have s': "s' = set_thread u (Call c (Select (current s (pref_of c)))) s" by simp
    from th Call Eval have "in_loop (pref_of c) (threads s ! u)" by simp
    from queues_ok_in_loop_ping [OF w u this] show ?thesis unfolding s' using w u th Call Eval
      by (intro queues_ok_set_thread) auto
  next
    case (Select ch)
    with Call st show ?thesis by simp
  next
    case (Parked ch)
    with Call st show ?thesis by simp
  qed
next
  case (ConnectCall f g)
  with st obtain ops where s': "s' = set_thread u (Ctl ops) (s\<lparr>chans := chans s @ [\<lparr>cap = 0, closed = False\<rparr>]\<rparr>)"
    by (auto simp: make_chan_def)
  show ?thesis unfolding s' using w u th ConnectCall
    by (intro queues_ok_set_thread) auto
next
  case (Ctl xs)
  show ?thesis
  proof (cases xs)
    case Nil
    with Ctl st show ?thesis by simp
  next
    case (Cons x ys)
    with Ctl st have s': "s' = set_thread u (Ctl ys) (do_op x s)" by simp
    from nth_threads_do_op [OF u, of x] th Ctl have "threads (do_op x s) ! u = Ctl xs" by auto
    then show ?thesis unfolding s' using w u
      by (intro queues_ok_set_thread queues_ok_do_op) auto
  qed
qed (use st in auto)

lemma exec_queues_ok:
  assumes ex: "exec zero ev s = Some s'" and w: "queues_ok s"
  shows "queues_ok s'"
proof (cases ev)
  case (Step u)
  with ex have "u < length (threads s)" "step_thread zero u (threads s ! u) s = Some s'"
    by (auto split: if_splits)
  with w show ?thesis using step_thread_queues_ok [of zero u "threads s ! u" s s'] by simp
next
  case (Park u)
  with ex have u: "u < length (threads s)" and pk: "park u (threads s ! u) s = Some s'"
    by (auto split: if_splits)
  then obtain c ch where "threads s ! u = Call c (Select ch)"
    and "s' = set_thread u (Call c (Parked ch)) (enqueue u (pref_of c) s)"
    by (auto elim!: park.elims split: if_splits)
  with w u show ?thesis by (simp add: queues_ok_def queue_ok_park)
next
  case (OnDone u)
  with ex have u: "u < length (threads s)" and od: "on_done zero u (threads s ! u) s = Some s'"
    by (auto split: if_splits)
  then obtain c x e where "threads s ! u = Call c x"
    and "s' = set_thread u (ret_err zero c e) (dequeue u (pref_of c) s)"
    by (auto elim!: on_done.elims split: option.splits)
  with w u show ?thesis by (simp add: queues_ok_set_thread_returned)
next
  case (Xfer r w')
  with ex have r: "r < length (threads s)" and w': "w' < length (threads s)"
    and xf: "xfer r w' (threads s ! r) (threads s ! w') s = Some s'"
    by (auto split: if_splits)
  then obtain p k x q k' v y where thr: "threads s ! r = Call (Recv p k) x"
    and thw: "threads s ! w' = Call (Send q k' v) y"
    and s': "s' = set_thread w' (SendRet None) (set_thread r (RecvRet v None)
             (dequeue w' (OutP q) (dequeue r (InP p) s)))"
    by (auto elim!: xfer.elims split: if_splits)
  let ?s1 = "set_thread r (RecvRet v None) (dequeue r (pref_of (Recv p k :: 'a call)) s)"
  from thr thw have ne: "r \<noteq> w'" by auto
  from w r thr have w1: "queues_ok ?s1" by (rule queues_ok_set_thread_returned) simp
  from w' thw ne have "w' < length (threads ?s1)" "threads ?s1 ! w' = Call (Send q k' v) y"
    by simp_all
  with w1 have "queues_ok (set_thread w' (SendRet None) (dequeue w' (pref_of (Send q k' v)) ?s1))"
    by (rule queues_ok_set_thread_returned) simp
  moreover have "s' = set_thread w' (SendRet None) (dequeue w' (pref_of (Send q k' v)) ?s1)"
    unfolding s' by (simp add: dequeue_def port_upd_set_thread)
  ultimately show ?thesis by simp
next
  case (OnClosed u)
  with ex have u: "u < length (threads s)" and oc: "on_closed zero u (threads s ! u) s = Some s'"
    by (auto split: if_splits)
  then obtain c x th' where "threads s ! u = Call c x"
    and "s' = set_thread u th' (dequeue u (pref_of c) s)" and "\<forall>p. \<not> in_loop p th'"
    by (auto elim!: on_closed.elims split: option.splits if_splits call.splits)
  with w u show ?thesis by (simp add: queues_ok_set_thread_returned)
next
  case (Cancel k e)
  with ex w show ?thesis by auto
qed

lemma run_queues_ok: "run zero evs s = Some s' \<Longrightarrow> queues_ok s \<Longrightarrow> queues_ok s'"
proof (induction evs arbitrary: s)
  case Nil
  then show ?case by simp
next
  case (Cons ev evs)
  then obtain s1 where s1: "exec zero ev s = Some s1" and r: "run zero evs s1 = Some s'"
    by (auto split: option.splits)
  from exec_queues_ok [OF s1 Cons.prems(2)] Cons.IH [OF r] show ?case by simp
qed

lemma queues_ok_boot: "list_all (\<lambda>th. \<forall>p. \<not> in_loop p th) ths \<Longrightarrow> queues_ok (boot ths)"
proof -
  assume a: "list_all (\<lambda>th. \<forall>p. \<not> in_loop p th) ths"
  have "queue_ok (boot ths) p" for p
    using a by (cases p) (auto simp: queue_ok_def boot_def port0_def list_all_iff)
  then show ?thesis by (simp add: queues_ok_def)
qed

lemma queues_ok_only_parked:
  assumes "queues_ok s" and "t < length (threads s)" and "threads s ! t = Call c (Parked ch)"
      and "\<forall>u < length (threads s). u \<noteq> t \<longrightarrow> \<not> parked_on (pref_of c) (threads s ! u)"
  shows "create (port_at s (pref_of c)) \<and> ping (port_at s (pref_of c)) = Some [t]"
proof -
  let ?p = "pref_of c"
  from assms(1) have w: "queue_ok s ?p" by (simp add: queues_ok_def)
  from assms(3) have "in_loop ?p (threads s ! t)" by simp
  from queue_ok_in_loop [OF w assms(2) this] obtain q where q: "ping (port_at s ?p) = Some q" ..
  with w have cr: "create (port_at s ?p)" and d: "distinct q" and st: "set q = parked_set s ?p"
    by (auto simp: queue_ok_def)
  from assms(2-4) have "parked_set s ?p = {t}" by (auto simp: parked_set_def)
  with st d have "q = [t]"
  proof (cases q)
    case Nil
    assume "set q = parked_set s ?p" "parked_set s ?p = {t}"
    with Nil show ?thesis by simp
  next
    case (Cons a r)
    assume "set q = parked_set s ?p" "parked_set s ?p = {t}" "distinct q"
    with Cons have "a = t" "set r \<subseteq> {t}" "t \<notin> set r" by auto
    then have "r = []" by (cases r) auto
    with Cons \<open>a = t\<close> show ?thesis by simp
  qed
  with q cr show ?thesis by simp
qed

subsection \<open>The sync.Once of a port stays done\<close>

lemma create_init: "create x \<Longrightarrow> create (init x)"
  by (simp add: init_def)

lemma create_port_upd:
  "create (port_at s p) \<Longrightarrow> (\<And>x. create x \<Longrightarrow> create (f x)) \<Longrightarrow> create (port_at (port_upd q f s) p)"
  by (auto simp: port_at_port_upd)

lemma create_notify: "create (port_at s p) \<Longrightarrow> create (port_at (notify q s) p)"
  by (cases p; cases q) (auto simp: notify_def split: option.splits list.splits)

lemma create_do_op: "create (port_at s p) \<Longrightarrow> create (port_at (do_op x s) p)"
  by (cases x) (auto simp: create_notify create_init intro!: create_port_upd)

lemma create_enqueue: "create (port_at s p) \<Longrightarrow> create (port_at (enqueue t q s) p)"
  by (auto simp: enqueue_def intro!: create_port_upd)

lemma create_dequeue: "create (port_at s p) \<Longrightarrow> create (port_at (dequeue t q s) p)"
  by (auto simp: dequeue_def intro!: create_port_upd)

lemma exec_create:
  assumes ex: "exec zero ev s = Some s'" and c: "create (port_at s p)"
  shows "create (port_at s' p)"
proof (cases ev)
  case (Step u)
  with ex have st: "step_thread zero u (threads s ! u) s = Some s'" by (auto split: if_splits)
  show ?thesis
  proof (cases "threads s ! u")
    case (Call c' x)
    with st c show ?thesis
      by (cases x) (auto simp: create_init split: option.splits intro!: create_port_upd)
  next
    case (ConnectCall f g)
    with st c show ?thesis by (auto simp: make_chan_def)
  next
    case (Ctl xs)
    with st c show ?thesis by (cases xs) (auto simp: create_do_op)
  qed (use st in auto)
next
  case (Park u)
  with ex c show ?thesis by (auto simp: create_enqueue split: if_splits elim!: park.elims)
next
  case (OnDone u)
  with ex c show ?thesis
    by (auto simp: create_dequeue split: if_splits option.splits elim!: on_done.elims)
next
  case (Xfer r w)
  with ex c show ?thesis by (auto simp: create_dequeue split: if_splits elim!: xfer.elims)
next
  case (OnClosed u)
  with ex c show ?thesis
    by (auto simp: create_dequeue split: if_splits option.splits elim!: on_closed.elims)
next
  case (Cancel k e)
  with ex c show ?thesis by auto
qed

lemma run_create:
  "run zero evs s = Some s' \<Longrightarrow> create (port_at s p) \<Longrightarrow> create (port_at s' p)"
proof (induction evs arbitrary: s)
  case Nil
  then show ?case by simp
next
  case (Cons ev evs)
  then obtain s1 where s1: "exec zero ev s = Some s1" and r: "run zero evs s1 = Some s'"
    by (auto split: option.splits)
  from exec_create [OF s1 Cons.prems(2)] Cons.IH [OF r] show ?case by simp
qed

subsection \<open>The task group\<close>

lemma fold_Go: "fold (\<lambda>c. Go) cs g = g\<lparr>pending := pending g + length cs\<rparr>"
  by (induction cs arbitrary: g) (auto simp: Go_def)

lemma fold_finish_task:
  "fold (finish_task ts) order g =
     \<lparr>first_err = (case first_err g of Some e \<Rightarrow> Some e
                    | None \<Rightarrow> (case reported ts order of [] \<Rightarrow> None | e # _ \<Rightarrow> Some e)),
      pending = pending g - length (finished ts order)\<rparr>"
proof (induction order arbitrary: g)
  case Nil
  then show ?case by (simp add: finished_def reported_def split: option.splits)
next
  case (Cons i order)
  show ?case
    by (simp add: Cons.IH)
       (auto simp: finish_task_def finish_def finished_def reported_def split: option.splits list.splits)
qed

lemma Run_eq:
  "Run ctx order net =
     (if length (components net) \<le> length (finished (tasks ctx net) order)
      then Some (case reported (tasks ctx net) order of [] \<Rightarrow> None | e # _ \<Rightarrow> Some e)
      else None)"
  by (simp add: Run_def fold_Go fold_finish_task Wait_def)

lemma finished_all:
  assumes d: "distinct order" and r: "set order \<subseteq> {..<length ts}"
  shows "(length ts \<le> length (finished ts order)) = (\<forall>i<length ts. i \<in> set order \<and> ts ! i \<noteq> None)"
proof
  assume le: "length ts \<le> length (finished ts order)"
  have sub: "set (finished ts order) \<subseteq> {..<length ts}" by (auto simp: finished_def)
  from d have df: "distinct (finished ts order)" by (simp add: finished_def)
  then have "card (set (finished ts order)) = length (finished ts order)" by (rule distinct_card)
  with le have "card {..<length ts} \<le> card (set (finished ts order))" by simp
  with sub have "set (finished ts order) = {..<length ts}"
    by (metis card_subset_eq finite_lessThan card_mono le_antisym finite_subset)
  then show "\<forall>i<length ts. i \<in> set order \<and> ts ! i \<noteq> None"
    by (auto simp: finished_def)
next
  assume a: "\<forall>i<length ts. i \<in> set order \<and> ts ! i \<noteq> None"
  with r have "finished ts order = order" by (auto simp: finished_def filter_id_conv)
  moreover from a r have "set order = {..<length ts}" by auto
  with d have "length order = length ts" using distinct_card [of order] by simp
  ultimately show "length ts \<le> length (finished ts order)" by simp
qed

lemmas eval_defs = boot_def port0_def set_thread_def init_def current_def make_chan_def
  swap_ops_def Disconnect_ops_def notify_def enqueue_def dequeue_def is_closed_def

subsection \<open>The example states are reached from initial states\<close>

lemma stall_demo_reachable:
  "run (0::nat) [Step 0, Step 0, Step 0, Step 0, Park 0]
     (boot [Call (Recv 0 0) Entry, Ctl (Disconnect_ops \<lparr>from_port = 0, to_port = 0\<rparr>)])
     = Some stall_demo"
  by (simp add: stall_demo_def eval_defs)

lemma cancelled_demo_reachable:
  "run (0::nat) [Step 2, Step 2, Step 2, Step 2, Step 2, Step 2, Step 2,
                 Step 1, Step 1, Step 1, Step 1, Park 1, Cancel 0 Canceled]
     (boot [Call (Recv 0 0) Entry, Call (Send 0 1 5) Entry, ConnectCall 0 0])
     = Some cancelled_demo"
  by (simp add: cancelled_demo_def eval_defs)

lemma wait_demo_reachable:
  "run (0::nat) [Step 2, Step 2, Step 2, Step 2, Step 2, Step 2, Step 2,
                 Step 0, Step 0, Step 0, Step 0, Park 0, Step 1, Step 1, Step 1, Step 1]
     (boot [Call (Recv 0 0) Entry, Call (Send 0 0 5) Entry, ConnectCall 0 0]) = Some wait_demo"
  by (simp add: wait_demo_def eval_defs)

lemma cut_wake_demo_reachable:
  "run (0::nat) [Step 3, Step 3, Step 3, Step 3, Step 3, Step 3, Step 3,
                 Step 0, Step 0, Step 0, Step 0, Park 0]
     (boot [Call (Recv 0 0) Entry, Ctl (Disconnect_ops \<lparr>from_port = 0, to_port = 0\<rparr>),
            Ctl (Disconnect_ops \<lparr>from_port = 0, to_port = 0\<rparr>), ConnectCall 0 0])
     = Some cut_wake_demo"
  by (simp add: cut_wake_demo_def eval_defs)

lemma cut_twice_demo_reachable:
  "run (0::nat) [Step 2, Step 2, Step 2, Step 2, Step 2, Step 2, Step 2]
     (boot [Ctl (Disconnect_ops \<lparr>from_port = 0, to_port = 0\<rparr>),
            Ctl (Disconnect_ops \<lparr>from_port = 0, to_port = 0\<rparr>), ConnectCall 0 0])
     = Some cut_twice_demo"
  by (simp add: cut_twice_demo_def eval_defs)

lemma cancelled_send_demo_reachable:
  "run (0::nat) [Step 2, Step 2, Step 2, Step 2, Step 2, Step 2, Step 2,
                 Step 1, Step 1, Step 1, Step 1, Park 1, Cancel 0 DeadlineExceeded]
     (boot [Call (Send 0 0 5) Entry, Call (Recv 0 1) Entry, ConnectCall 0 0])
     = Some cancelled_send_demo"
  by (simp add: cancelled_send_demo_def eval_defs)

lemma window_demo_reachable:
  "run (0::nat) (take 5 stale_send_schedule)
     (boot [Call (Send 0 0 7) Entry, ConnectCall 0 0, Call (Recv 0 0) Entry]) = Some window_demo"
  by (simp add: stale_send_schedule_def window_demo_def eval_defs)

subsection \<open>Swap\<close>

lemma ping_swap_fresh:
  "\<not> create (port_at s p) \<Longrightarrow> ping (port_at (swap p d s) p) = Some []"
  by (simp add: swap_def notify_def port_at_port_upd init_def)

lemma ping_notify_Some:
  "ping (port_at s p) \<noteq> None \<Longrightarrow> ping (port_at (notify q s) p) \<noteq> None"
  by (cases p; cases q) (auto simp: notify_def split: option.splits list.splits)

lemma ping_swap_exists:
  assumes "create (port_at s p) \<longrightarrow> ping (port_at s p) \<noteq> None"
  shows "ping (port_at (swap p d s) p) \<noteq> None"
proof -
  from assms have "ping (port_at (port_upd p (\<lambda>x. x\<lparr>data := d\<rparr>) (port_upd p init s)) p) \<noteq> None"
    by (auto simp: port_at_port_upd init_def)
  then show ?thesis unfolding swap_def do_op.simps by (rule ping_notify_Some)
qed

lemma run_ping_stays:
  assumes "run zero evs s = Some s'" and "queues_ok s" and "ping (port_at s p) \<noteq> None"
  shows "ping (port_at s' p) \<noteq> None"
proof -
  from assms(2) have "queue_ok s p" by (simp add: queues_ok_def)
  with assms(3) have "create (port_at s p)" by (auto simp: queue_ok_def)
  from run_create [OF assms(1) this] have c: "create (port_at s' p)" .
  from run_queues_ok [OF assms(1,2)] have "queue_ok s' p" by (simp add: queues_ok_def)
  with c show ?thesis by (auto simp: queue_ok_def split: option.splits)
qed

lemma swap_wakes_head:
  assumes "u < length (threads s)" and "threads s ! u = Call c (Parked ch)"
      and "create (port_at s p)" and "ping (port_at s p) = Some (u # q)"
  shows "threads (swap p d s) ! u = Call c Drain \<and> ping (port_at (swap p d s) p) = Some q"
  using assms by (cases p) (simp_all add: swap_def notify_def init_def)

lemma run_install_before_notify:
  assumes "t < length (threads s)" and "threads s ! t = Ctl (swap_ops p d @ xs)"
  shows "run zero [Step t, Step t] s
           = Some (set_thread t (Ctl (NotifyP p # xs)) (port_upd p (\<lambda>x. (init x)\<lparr>data := d\<rparr>) s))"
  using assms by (cases p) (simp_all add: swap_ops_def set_thread_def)

text \<open>
  C6. \<open>swap(d)\<close> on a port is a total function of the state: it installs \<open>d\<close>, nil
  or a channel, as the current channel of the port and touches neither the heap of
  channels nor a context. After it the \<open>sync.Once\<close> of the port is done, and on a port
  whose \<open>sync.Once\<close> is done \<open>init\<close> changes nothing, and no run undoes a
  \<open>sync.Once\<close> that is done: \<open>ping\<close> is made once. The
  notify leaves every goroutine as it is or moves one goroutine, which was parked in a
  \<open>select\<close>, to the head of its loop. With no receiver parked on \<open>ping\<close> the notify
  is skipped: the swap is the update of the port and nothing else. A goroutine that has
  a piece of a swap to run can run it in every state, and can run the three pieces of a
  swap in a row: none of them waits for another goroutine.

  The zero-valued port has no \<open>ping\<close>, and \<open>init\<close> on it makes one, with nobody
  parked on it. So the first swap of a port, whose \<open>sync.Once\<close> is not done, leaves
  the port with a \<open>ping\<close> on which nobody is parked; a swap of a port that has a
  \<open>ping\<close> or has not run its \<open>sync.Once\<close> leaves it with one; and in a run from a
  state whose queues are in order a port that has a \<open>ping\<close> keeps one. When goroutine
  \<open>u\<close> is parked at the head of the queue of \<open>ping\<close>, the swap moves \<open>u\<close> to the
  head of its loop and takes it off the queue, whoever else is parked behind it. The
  pieces of a swap run in the order of the code: after the first two pieces of a
  goroutine that swaps, the channel is installed in the port and the notify is the
  piece that remains, so the goroutine that the notify wakes reads the new channel.
\<close>

theorem swap_installs_without_blocking:
  "current (swap p d s) p = d
   \<and> chans (swap p d s) = chans s \<and> ctxs (swap p d s) = ctxs s
   \<and> create (port_at (swap p d s) p)
   \<and> (create (port_at s p) \<longrightarrow> init (port_at s p) = port_at s p)
   \<and> (threads (swap p d s) = threads s
        \<or> (\<exists>u c ch. u < length (threads s) \<and> threads s ! u = Call c (Parked ch)
              \<and> threads (swap p d s) = (threads s)[u := Call c Drain]))
   \<and> (ping (port_at s p) = None \<or> ping (port_at s p) = Some []
        \<longrightarrow> swap p d s = port_upd p (\<lambda>x. (init x)\<lparr>data := d\<rparr>) s)
   \<and> (run zero evs s = Some s' \<and> create (port_at s p) \<longrightarrow> create (port_at s' p))
   \<and> (t < length (threads s) \<and> threads s ! t = Ctl (x # xs)
        \<longrightarrow> exec zero (Step t) s = Some (set_thread t (Ctl xs) (do_op x s)))
   \<and> (t < length (threads s) \<and> threads s ! t = Ctl (swap_ops p d @ xs)
        \<longrightarrow> run zero [Step t, Step t, Step t] s = Some (set_thread t (Ctl xs) (swap p d s)))
   \<and> ping port0 = None
   \<and> init port0 = \<lparr>data = None, ping = Some [], create = True\<rparr>
   \<and> (\<not> create (port_at s p) \<longrightarrow> ping (port_at (swap p d s) p) = Some [])
   \<and> ((create (port_at s p) \<longrightarrow> ping (port_at s p) \<noteq> None)
        \<longrightarrow> ping (port_at (swap p d s) p) \<noteq> None)
   \<and> (run zero evs s = Some s' \<and> queues_ok s \<and> ping (port_at s p) \<noteq> None
        \<longrightarrow> ping (port_at s' p) \<noteq> None)
   \<and> (u < length (threads s) \<and> threads s ! u = Call c (Parked ch)
        \<and> create (port_at s p) \<and> ping (port_at s p) = Some (u # q)
        \<longrightarrow> threads (swap p d s) ! u = Call c Drain \<and> ping (port_at (swap p d s) p) = Some q)
   \<and> (t < length (threads s) \<and> threads s ! t = Ctl (swap_ops p d @ xs)
        \<longrightarrow> run zero [Step t, Step t] s
              = Some (set_thread t (Ctl (NotifyP p # xs))
                       (port_upd p (\<lambda>x. (init x)\<lparr>data := d\<rparr>) s)))"
proof -
  have 1: "threads (swap p d s) = threads s
        \<or> (\<exists>u c ch. u < length (threads s) \<and> threads s ! u = Call c (Parked ch)
              \<and> threads (swap p d s) = (threads s)[u := Call c Drain])"
    using notify_wakes_one [of p "port_upd p (\<lambda>x. x\<lparr>data := d\<rparr>) (port_upd p init s)"]
    by (simp add: swap_def)
  have 2: "current (swap p d s) p = d" by (simp add: current_swap)
  have 3: "chans (swap p d s) = chans s \<and> ctxs (swap p d s) = ctxs s" by (simp add: swap_def)
  have 4: "create (port_at s p) \<longrightarrow> init (port_at s p) = port_at s p" by (simp add: init_def)
  have 8: "t < length (threads s) \<and> threads s ! t = Ctl (x # xs)
        \<longrightarrow> exec zero (Step t) s = Some (set_thread t (Ctl xs) (do_op x s))" by simp
  have 10: "ping port0 = None \<and> init port0 = \<lparr>data = None, ping = Some [], create = True\<rparr>"
    by (simp add: port0_def init_def)
  note 5 = create_swap [of p d s] and 6 = swap_no_listener [of s p d]
    and 7 = run_swap_ops [of t s p d xs zero] and 9 = run_create [of zero evs s s' p]
    and 11 = ping_swap_fresh [of s p d] and 12 = ping_swap_exists [of s p d]
    and 13 = run_ping_stays [of zero evs s s' p] and 14 = swap_wakes_head [of u s c ch p q d]
    and 15 = run_install_before_notify [of t s p d xs zero]
  from 1 2 3 4 5 6 7 8 9 10 11 12 13 14 15 show ?thesis by blast
qed

theorem swap_installs_without_blocking_witness:
  "create (port_at stall_demo (InP 0))
   \<and> init (port_at stall_demo (InP 0)) = port_at stall_demo (InP 0)
   \<and> threads (swap (InP 0) (Some 3) stall_demo) = (threads stall_demo)[0 := Call (Recv 0 0) Drain]
   \<and> ping (port_at stall_demo (OutP 0)) = None
   \<and> swap (OutP 0) None stall_demo = port_upd (OutP 0) (\<lambda>x. (init x)\<lparr>data := None\<rparr>) stall_demo
   \<and> (1::nat) < length (threads stall_demo)
   \<and> threads stall_demo ! 1 = Ctl (swap_ops (OutP 0) None @ swap_ops (InP 0) None)
   \<and> run (0::nat) [Step 1, Step 1, Step 1] stall_demo
       = Some (set_thread 1 (Ctl (swap_ops (InP 0) None)) (swap (OutP 0) None stall_demo))
   \<and> create (port_at (set_thread 1 (Ctl (swap_ops (InP 0) None)) (swap (OutP 0) None stall_demo)) (InP 0))
   \<and> \<not> create (port_at stall_demo (OutP 0))
   \<and> ping (port_at (swap (OutP 0) None stall_demo) (OutP 0)) = Some []
   \<and> queues_ok stall_demo
   \<and> ping (port_at stall_demo (InP 0)) = Some [0]
   \<and> ping (port_at (set_thread 1 (Ctl (swap_ops (InP 0) None)) (swap (OutP 0) None stall_demo)) (InP 0))
       = Some [0]
   \<and> (0::nat) < length (threads stall_demo)
   \<and> threads stall_demo ! 0 = Call (Recv 0 0) (Parked None)
   \<and> threads (swap (InP 0) (Some 3) stall_demo) ! 0 = Call (Recv 0 0) Drain
   \<and> ping (port_at (swap (InP 0) (Some 3) stall_demo) (InP 0)) = Some []
   \<and> run (0::nat) [Step 1, Step 1] stall_demo
       = Some (set_thread 1 (Ctl (NotifyP (OutP 0) # swap_ops (InP 0) None))
                (port_upd (OutP 0) (\<lambda>x. (init x)\<lparr>data := None\<rparr>) stall_demo))"
proof -
  have "queues_ok (boot [Call (Recv 0 0) Entry, Ctl (Disconnect_ops \<lparr>from_port = 0, to_port = 0\<rparr>)] :: nat sys)"
    by (rule queues_ok_boot) simp
  with stall_demo_reachable have "queues_ok stall_demo" by (rule run_queues_ok)
  then show ?thesis
    using swap_installs_without_blocking [where p = "OutP 0" and d = None and s = stall_demo
        and t = 1 and xs = "swap_ops (InP 0) None" and zero = "0::nat"]
      swap_installs_without_blocking [where p = "InP 0" and d = "Some 3" and s = stall_demo
        and evs = "[Step 1, Step 1, Step 1]" and zero = "0::nat" and u = 0
        and c = "Recv 0 0" and ch = None and q = "[]"
        and s' = "set_thread 1 (Ctl (swap_ops (InP 0) None)) (swap (OutP 0) None stall_demo)"]
    by (simp add: stall_demo_def eval_defs swap_def)
qed

subsection \<open>Recv and Send\<close>

text \<open>
  C8. In every run, a goroutine that was inside a call of \<open>Recv\<close> and has returned
  from it with an error has returned the zero value of \<open>T\<close> with it.
\<close>

theorem Recv_error_carries_zero_value:
  assumes "run zero evs s = Some s'" and "t < length (threads s)"
      and "threads s ! t = Call (Recv p k) x" and "threads s' ! t = RecvRet v (Some e)"
  shows "v = zero"
proof -
  from assms(3) have "zero_on_error zero (threads s ! t)" by simp
  from run_zero_on_error [OF assms(1,2) this] assms(4) show ?thesis by simp
qed

theorem Recv_error_carries_zero_value_witness:
  "run (0::nat) [Step 0, Step 0, Step 0, Step 0, Park 0, Cancel 0 Canceled, OnDone 0]
       (boot [Call (Recv 0 0) Entry]) = Some
       \<lparr>ins = (\<lambda>a. port0)(0 := \<lparr>data = None, ping = Some [], create = True\<rparr>),
        outs = (\<lambda>a. port0), chans = [], ctxs = (\<lambda>k. None)(0 := Some Canceled),
        threads = [RecvRet 0 (Some Canceled)]\<rparr>
   \<and> (0::nat) < length (threads (boot [Call (Recv 0 0) Entry] :: nat sys))
   \<and> threads (boot [Call (Recv 0 0) Entry] :: nat sys) ! 0 = Call (Recv 0 0) Entry"
  using Recv_error_carries_zero_value [of "0::nat"
     "[Step 0, Step 0, Step 0, Step 0, Park 0, Cancel 0 Canceled, OnDone 0]"
     "boot [Call (Recv 0 0) Entry]" _ 0 0 0 Entry 0 Canceled]
  by (simp add: eval_defs)

text \<open>
  C10. A goroutine that calls \<open>Recv\<close> or \<open>Send\<close> with a context that is already
  cancelled with error \<open>e\<close> can run its first piece, and after that piece the
  goroutine has returned: from \<open>Recv\<close> with the zero value and the error \<open>e\<close>, from
  \<open>Send\<close> with the error \<open>e\<close>. The piece changes nothing else in the state: no port,
  no channel, no other goroutine, so no partner has handed over or taken a value. No other
  event moves the goroutine from the entry of the call; in particular it takes part in no
  transfer.
\<close>

theorem cancelled_context_returns_at_once:
  assumes "t < length (threads s)" and "threads s ! t = Call c Entry"
      and "ctxs s (ctx_of c) = Some e"
  shows "exec zero (Step t) s
           = Some (set_thread t (case c of Recv p k \<Rightarrow> RecvRet zero (Some e)
                                         | Send p k v \<Rightarrow> SendRet (Some e)) s)
       \<and> (\<forall>ev s'. exec zero ev s = Some s' \<and> ev \<noteq> Step t \<longrightarrow> threads s' ! t = Call c Entry)"
proof -
  from assms have 1: "exec zero (Step t) s
           = Some (set_thread t (case c of Recv p k \<Rightarrow> RecvRet zero (Some e)
                                         | Send p k v \<Rightarrow> SendRet (Some e)) s)"
    by (cases c) simp_all
  have 2: "threads s' ! t = Call c Entry" if ex: "exec zero ev s = Some s'" and ne: "ev \<noteq> Step t"
    for ev s'
  proof (cases "t \<in> set (actors ev)")
    case False
    from exec_other [OF ex assms(1) False] assms(2) show ?thesis by auto
  next
    case True
    with ex ne assms(1,2) show ?thesis
      by (cases ev) (auto split: if_splits dest: xfer_result)
  qed
  from 1 2 show ?thesis by blast
qed

theorem cancelled_context_returns_at_once_witness:
  "(0::nat) < length (threads cancelled_demo)
   \<and> threads cancelled_demo ! 0 = Call (Recv 0 0) Entry
   \<and> ctxs cancelled_demo (ctx_of (Recv 0 0 :: nat call)) = Some Canceled
   \<and> current cancelled_demo (InP 0) = Some 0
   \<and> waits_send 0 (threads cancelled_demo ! 1)
   \<and> exec 0 (Step 0) cancelled_demo
       = Some (cancelled_demo\<lparr>threads := [RecvRet 0 (Some Canceled), Call (Send 0 1 5) (Parked (Some 0)), Ctl []]\<rparr>)
   \<and> exec 0 (Xfer 0 1) cancelled_demo = None
   \<and> (0::nat) < length (threads cancelled_send_demo)
   \<and> threads cancelled_send_demo ! 0 = Call (Send 0 0 5) Entry
   \<and> ctxs cancelled_send_demo (ctx_of (Send 0 0 5 :: nat call)) = Some DeadlineExceeded
   \<and> current cancelled_send_demo (OutP 0) = Some 0
   \<and> waits_recv 0 (threads cancelled_send_demo ! 1)
   \<and> exec 0 (Step 0) cancelled_send_demo
       = Some (cancelled_send_demo\<lparr>threads := [SendRet (Some DeadlineExceeded), Call (Recv 0 1) (Parked (Some 0)), Ctl []]\<rparr>)
   \<and> exec 0 (Xfer 1 0) cancelled_send_demo = None"
  using cancelled_context_returns_at_once [of 0 cancelled_demo "Recv 0 0" Canceled 0]
    cancelled_context_returns_at_once [of 0 cancelled_send_demo "Send 0 0 5" DeadlineExceeded 0]
  by (simp add: cancelled_demo_def cancelled_send_demo_def eval_defs)



lemma swap_wakes_first_parked:
  assumes "t < length (threads s)" and "threads s ! t = Call c (Parked ch)"
      and "create (port_at s p)" and "ping (port_at s p) = Some (t # q)"
  shows "threads (swap p d s) ! t = Call c Drain"
  using assms by (simp add: swap_def notify_def port_at_port_upd init_def)

lemma run_restart:
  assumes "t < length (threads s)" and "threads s ! t = Call c Drain"
  shows "run zero [Step t, Step t] s = Some (set_thread t (Call c (Select (current s (pref_of c)))) s)"
  using assms by (simp add: current_def)

text \<open>
  A goroutine is inside the second \<open>select\<close> of \<open>Recv\<close> or \<open>Send\<close>, about to
  enter it or parked in it, with \<open>ch\<close> the channel it has read from its port; every
  channel is open. Whatever event happens next, the goroutine is afterwards
  \<^item> still where it was, or parked on \<open>ch\<close>; or
  \<^item> (a) returned from a transfer on \<open>ch\<close> with a partner that was in its own
    \<open>select\<close> on the same channel: \<open>Recv\<close> returns the partner's value and a nil error,
    \<open>Send\<close> returns nil and the partner receives its value; or
  \<^item> (b) returned with the error of its context, which is cancelled; or
  \<^item> (c) back at the head of its loop, woken from the parked state by a notify.
  No other outcome exists, and a swap produces no error. For (c): when the queues of
  the ports are in order, as they are in every state that a run reaches from an initial
  state, and the goroutine is the only one parked on its port, a swap of the port moves
  it to the head of its loop and installs the new channel; and from the head of the
  loop the next two pieces of the goroutine lead it into the \<open>select\<close> with the
  channel that is current then.
\<close>

lemma wait_outcomes:
  assumes "t < length (threads s)" and "threads s ! t = Call c x"
      and "in_select x = Some ch" and "all_open s"
  shows "(\<forall>ev s'. exec zero ev s = Some s' \<longrightarrow>
            threads s' ! t = Call c x
          \<or> threads s' ! t = Call c (Parked ch)
          \<or> (\<exists>d p k w q k' v. ch = Some d \<and> c = Recv p k \<and> w < length (threads s)
                \<and> (\<exists>y. threads s ! w = Call (Send q k' v) y \<and> in_select y = Some (Some d))
                \<and> threads s' ! t = RecvRet v None \<and> threads s' ! w = SendRet None)
          \<or> (\<exists>d p k v r q k'. ch = Some d \<and> c = Send p k v \<and> r < length (threads s)
                \<and> (\<exists>y. threads s ! r = Call (Recv q k') y \<and> in_select y = Some (Some d))
                \<and> threads s' ! t = SendRet None \<and> threads s' ! r = RecvRet v None)
          \<or> (\<exists>e. ctxs s (ctx_of c) = Some e \<and> threads s' ! t = ret_err zero c e)
          \<or> (x = Parked ch \<and> threads s' ! t = Call c Drain))
       \<and> (\<forall>d. queues_ok s \<and> x = Parked ch
                 \<and> (\<forall>u<length (threads s). u \<noteq> t \<longrightarrow> \<not> parked_on (pref_of c) (threads s ! u))
              \<longrightarrow> threads (swap (pref_of c) d s) ! t = Call c Drain
                  \<and> current (swap (pref_of c) d s) (pref_of c) = d)
       \<and> (\<forall>s1. t < length (threads s1) \<and> threads s1 ! t = Call c Drain
              \<longrightarrow> run zero [Step t, Step t] s1
                    = Some (set_thread t (Call c (Select (current s1 (pref_of c)))) s1))"
proof (intro conjI allI impI)
  fix ev s'
  assume "exec zero ev s = Some s'"
  from select_outcomes_aux [OF this assms]
  show "threads s' ! t = Call c x
          \<or> threads s' ! t = Call c (Parked ch)
          \<or> (\<exists>d p k w q k' v. ch = Some d \<and> c = Recv p k \<and> w < length (threads s)
                \<and> (\<exists>y. threads s ! w = Call (Send q k' v) y \<and> in_select y = Some (Some d))
                \<and> threads s' ! t = RecvRet v None \<and> threads s' ! w = SendRet None)
          \<or> (\<exists>d p k v r q k'. ch = Some d \<and> c = Send p k v \<and> r < length (threads s)
                \<and> (\<exists>y. threads s ! r = Call (Recv q k') y \<and> in_select y = Some (Some d))
                \<and> threads s' ! t = SendRet None \<and> threads s' ! r = RecvRet v None)
          \<or> (\<exists>e. ctxs s (ctx_of c) = Some e \<and> threads s' ! t = ret_err zero c e)
          \<or> (x = Parked ch \<and> threads s' ! t = Call c Drain)" .
next
  fix d
  assume a: "queues_ok s \<and> x = Parked ch
      \<and> (\<forall>u<length (threads s). u \<noteq> t \<longrightarrow> \<not> parked_on (pref_of c) (threads s ! u))"
  with assms(1,2) have "create (port_at s (pref_of c)) \<and> ping (port_at s (pref_of c)) = Some [t]"
    by (intro queues_ok_only_parked) auto
  with assms(1,2) a show "threads (swap (pref_of c) d s) ! t = Call c Drain"
    by (intro swap_wakes_first_parked) auto
next
  fix d
  show "current (swap (pref_of c) d s) (pref_of c) = d" by (simp add: current_swap)
next
  fix s1 :: "'a sys"
  assume "t < length (threads s1) \<and> threads s1 ! t = Call c Drain"
  then show "run zero [Step t, Step t] s1
      = Some (set_thread t (Call c (Select (current s1 (pref_of c)))) s1)"
    by (elim conjE) (rule run_restart)
qed

lemma wait_outcomes_example:
  "(0::nat) < length (threads wait_demo)
   \<and> threads wait_demo ! 0 = Call (Recv 0 0) (Parked (Some 0))
   \<and> in_select (Parked (Some 0)) = Some (Some 0)
   \<and> all_open wait_demo
   \<and> exec 0 (Xfer 0 1) wait_demo
       = Some (wait_demo\<lparr>ins := (\<lambda>a. port0)(0 := \<lparr>data = Some 0, ping = Some [], create = True\<rparr>),
                         threads := [RecvRet 5 None, SendRet None, Ctl []]\<rparr>)
   \<and> queues_ok wait_demo
   \<and> \<not> parked_on (pref_of (Recv 0 0 :: nat call)) (threads wait_demo ! 1)
   \<and> \<not> parked_on (pref_of (Recv 0 0 :: nat call)) (threads wait_demo ! 2)
   \<and> threads (swap (InP 0) None wait_demo) ! 0 = Call (Recv 0 0) Drain
   \<and> run 0 [Step 0, Step 0] (swap (InP 0) None wait_demo)
       = Some (set_thread 0 (Call (Recv 0 0) (Select None)) (swap (InP 0) None wait_demo))"
proof -
  have "queues_ok (boot [Call (Recv 0 0) Entry, Call (Send 0 0 5) Entry, ConnectCall 0 0] :: nat sys)"
    by (rule queues_ok_boot) simp
  with wait_demo_reachable have "queues_ok wait_demo" by (rule run_queues_ok)
  then show ?thesis
    using wait_outcomes [of 0 wait_demo "Recv 0 0" "Parked (Some 0)" "Some 0" 0]
    by (simp add: wait_demo_def eval_defs all_open_def swap_def)
qed

text \<open>
  The two exits of the \<open>select\<close> other than the wake-up are enabled when their
  condition holds. With the context cancelled with error \<open>e\<close>, a goroutine about to
  enter the \<open>select\<close> or parked in it can return: \<open>Recv\<close> returns the zero value and
  \<open>e\<close>, \<open>Send\<close> returns \<open>e\<close>. A receiver and a sender that meet on a channel, one
  parked on it and the other entering its \<open>select\<close> with it, can transfer: \<open>Recv\<close>
  returns the sender's value and nil, \<open>Send\<close> returns nil.
\<close>

lemma wait_exits_enabled:
  "(t < length (threads s) \<and> threads s ! t = Call c x \<and> in_select x = Some ch
      \<and> ctxs s (ctx_of c) = Some e
      \<longrightarrow> exec zero (OnDone t) s
            = Some (set_thread t (case c of Recv p k \<Rightarrow> RecvRet zero (Some e)
                                          | Send p k v \<Rightarrow> SendRet (Some e))
                     (dequeue t (pref_of c) s)))
   \<and> (r < length (threads s) \<and> w < length (threads s)
        \<and> threads s ! r = Call (Recv p' k') y \<and> threads s ! w = Call (Send q' k'' v') y'
        \<and> meet y y'
      \<longrightarrow> exec zero (Xfer r w) s
            = Some (set_thread w (SendRet None) (set_thread r (RecvRet v' None)
                     (dequeue w (OutP q') (dequeue r (InP p') s)))))"
  by (cases c) simp_all

subsection \<open>Channels are never closed\<close>

lemma chans_do_op [simp]: "chans (do_op x s) = chans s"
  by (cases x) simp_all

lemma exec_chans:
  assumes "exec zero ev s = Some s'"
  shows "chans s' = chans s \<or> chans s' = chans s @ [\<lparr>cap = 0, closed = False\<rparr>]"
proof (cases ev)
  case (Step u)
  with assms have st: "step_thread zero u (threads s ! u) s = Some s'" by (auto split: if_splits)
  show ?thesis
  proof (cases "threads s ! u")
    case (Call c x)
    with st show ?thesis by (cases x) (auto split: option.splits)
  next
    case (Ctl xs)
    with st show ?thesis by (cases xs) auto
  qed (use st in \<open>auto simp: make_chan_def\<close>)
next
  case (Park u)
  with assms show ?thesis by (auto simp: enqueue_def split: if_splits elim!: park.elims)
next
  case (OnDone u)
  with assms show ?thesis by (auto simp: dequeue_def split: if_splits option.splits elim!: on_done.elims)
next
  case (Xfer r w)
  with assms show ?thesis by (auto simp: dequeue_def split: if_splits elim!: xfer.elims)
next
  case (OnClosed u)
  with assms show ?thesis by (auto simp: dequeue_def split: if_splits option.splits elim!: on_closed.elims)
next
  case (Cancel k e)
  with assms show ?thesis by auto
qed


lemma run_chans:
  "run zero evs s = Some s' \<Longrightarrow> \<exists>n. chans s' = chans s @ replicate n \<lparr>cap = 0, closed = False\<rparr>"
proof (induction evs arbitrary: s)
  case Nil
  then have "chans s' = chans s @ replicate 0 \<lparr>cap = 0, closed = False\<rparr>" by simp
  then show ?case ..
next
  case (Cons ev evs)
  then obtain s1 where s1: "exec zero ev s = Some s1" and r: "run zero evs s1 = Some s'"
    by (auto split: option.splits)
  from Cons.IH [OF r] obtain n where n: "chans s' = chans s1 @ replicate n \<lparr>cap = 0, closed = False\<rparr>" ..
  from exec_chans [OF s1] show ?case
  proof
    assume "chans s1 = chans s"
    with n show ?thesis by auto
  next
    assume "chans s1 = chans s @ [\<lparr>cap = 0, closed = False\<rparr>]"
    with n have "chans s' = chans s @ replicate (Suc n) \<lparr>cap = 0, closed = False\<rparr>" by simp
    then show ?thesis ..
  qed
qed

lemma on_closed_all_open: "all_open s \<Longrightarrow> on_closed zero t th s = None"
proof (cases th)
  case (Call c x)
  assume "all_open s"
  with Call show ?thesis by (auto simp: all_open_not_closed split: option.splits)
qed auto

lemma Disconnect_chans [simp]: "chans (Disconnect cn s) = chans s"
  by (simp add: Disconnect_def)

text \<open>
  C9. A run only adds channels to the heap, each of them open and of capacity 0, and
  changes no channel that exists: no event closes a channel. \<open>swap\<close> and
  \<open>Disconnect\<close> leave the heap as it is, \<open>Connect\<close> adds its one open channel. If
  every channel is open before a run, every channel is open after it, and no goroutine
  can take the closed-channel case of its \<open>select\<close>.
\<close>

theorem no_channel_is_ever_closed:
  assumes "run zero evs s = Some s'"
  shows "(\<exists>n. chans s' = chans s @ replicate n \<lparr>cap = 0, closed = False\<rparr>)
       \<and> (all_open s \<longrightarrow> all_open s' \<and> (\<forall>t. exec zero (OnClosed t) s' = None))
       \<and> chans (swap p d s) = chans s
       \<and> chans (Disconnect cn s) = chans s
       \<and> chans (snd (Connect f g s)) = chans s @ [\<lparr>cap = 0, closed = False\<rparr>]"
proof -
  from run_chans [OF assms] obtain n where n: "chans s' = chans s @ replicate n \<lparr>cap = 0, closed = False\<rparr>" ..
  then have 1: "all_open s' " if "all_open s" using that by (auto simp: all_open_def list_all_iff)
  have 2: "exec zero (OnClosed t) s' = None" if "all_open s" for t
    using 1 [OF that] by (simp add: on_closed_all_open)
  have 3: "chans (snd (Connect f g s)) = chans s @ [\<lparr>cap = 0, closed = False\<rparr>]"
    by (simp add: Connect_def make_chan_def)
  from n 1 2 3 show ?thesis by auto
qed

theorem no_channel_is_ever_closed_witness:
  "run (0::nat) [Step 2, Step 2, Step 2, Step 2, Step 2, Step 2, Step 2,
                 Step 0, Step 0, Step 0, Step 0, Park 0, Step 1, Step 1, Step 1, Step 1]
     (boot [Call (Recv 0 0) Entry, Call (Send 0 0 5) Entry, ConnectCall 0 0]) = Some wait_demo
   \<and> all_open (boot [Call (Recv 0 0) Entry, Call (Send 0 0 5) Entry, ConnectCall 0 0] :: nat sys)
   \<and> chans wait_demo = [\<lparr>cap = 0, closed = False\<rparr>]
   \<and> all_open wait_demo
   \<and> exec 0 (OnClosed 0) wait_demo = None"
  using no_channel_is_ever_closed [of "0::nat" _ "boot [Call (Recv 0 0) Entry, Call (Send 0 0 5) Entry, ConnectCall 0 0]" wait_demo]
  by (simp add: wait_demo_def eval_defs all_open_def)

subsection \<open>A swap between the read of the channel and the park\<close>

lemma idle_nth: "idle s \<Longrightarrow> u < length (threads s) \<Longrightarrow> idle_thread (threads s ! u)"
  by (simp add: idle_def list_all_length)

lemma idle_set_thread: "idle s \<Longrightarrow> idle_thread th \<Longrightarrow> idle (set_thread t th s)"
  by (simp add: idle_def list_all_update)

lemma idle_port_upd [simp]: "idle (port_upd p f s) = idle s"
  by (simp add: idle_def)

lemma idle_enqueue [simp]: "idle (enqueue t p s) = idle s"
  by (simp add: idle_def)

lemma idle_dequeue [simp]: "idle (dequeue t p s) = idle s"
  by (simp add: idle_def)

lemma idle_ret_err [simp]: "idle_thread (ret_err zero c e)"
  by (cases c) auto

lemma exec_idle:
  assumes ex: "exec zero ev s = Some s'" and i: "idle s"
  shows "idle s'"
proof (cases ev)
  case (Step u)
  with ex have u: "u < length (threads s)" and st: "step_thread zero u (threads s ! u) s = Some s'"
    by (auto split: if_splits)
  from idle_nth [OF i u] have it: "idle_thread (threads s ! u)" .
  show ?thesis
  proof (cases "threads s ! u")
    case (Call c x)
    with st i show ?thesis by (cases x) (auto intro!: idle_set_thread split: option.splits)
  next
    case (Ctl xs)
    with it st show ?thesis by simp
  next
    case (ConnectCall f g)
    with it show ?thesis by simp
  qed (use st in auto)
next
  case (Park u)
  with ex i show ?thesis
    by (auto split: if_splits elim!: park.elims intro!: idle_set_thread)
next
  case (OnDone u)
  with ex i show ?thesis
    by (auto split: if_splits option.splits elim!: on_done.elims intro!: idle_set_thread)
next
  case (Xfer r w)
  with ex i show ?thesis
    by (auto split: if_splits elim!: xfer.elims intro!: idle_set_thread)
next
  case (OnClosed u)
  with ex i show ?thesis
    by (auto split: if_splits option.splits call.splits elim!: on_closed.elims
        intro!: idle_set_thread)
next
  case (Cancel k e)
  with ex i show ?thesis by (auto simp: idle_def)
qed

lemma exec_idle_threads:
  assumes ex: "exec zero ev s = Some s'" and i: "idle s" and t: "t < length (threads s)"
      and nt: "t \<notin> set (actors ev)"
  shows "threads s' ! t = threads s ! t"
proof (cases ev)
  case (Step u)
  with ex have u: "u < length (threads s)" and st: "step_thread zero u (threads s ! u) s = Some s'"
    by (auto split: if_splits)
  from idle_nth [OF i u] have it: "idle_thread (threads s ! u)" .
  from Step nt have ne: "t \<noteq> u" by simp
  show ?thesis
  proof (cases "threads s ! u")
    case (Call c x)
    with st ne show ?thesis by (cases x) (auto split: option.splits)
  next
    case (Ctl xs)
    with it st show ?thesis by simp
  next
    case (ConnectCall f g)
    with it show ?thesis by simp
  qed (use st in auto)
next
  case (Park u)
  with ex nt show ?thesis by (auto split: if_splits elim!: park.elims)
next
  case (OnDone u)
  with ex nt show ?thesis by (auto split: if_splits option.splits elim!: on_done.elims)
next
  case (Xfer r w)
  with ex have "xfer r w (threads s ! r) (threads s ! w) s = Some s'" by (auto split: if_splits)
  from xfer_result [OF this] Xfer nt show ?thesis by auto
next
  case (OnClosed u)
  with ex nt show ?thesis by (auto split: if_splits option.splits elim!: on_closed.elims)
next
  case (Cancel k e)
  with ex show ?thesis by auto
qed

lemma exec_parked_for_good:
  assumes ex: "exec zero ev s = Some s'" and p: "parked_for_good zero t c s"
  shows "parked_for_good zero t c s'"
proof -
  from p have i: "idle s" and t: "t < length (threads s)"
    and th: "threads s ! t = Call c (Parked None) \<or> (\<exists>e. threads s ! t = ret_err zero c e)"
    by (auto simp: parked_for_good_def)
  from exec_idle [OF ex i] have 1: "idle s'" .
  from exec_length [OF ex] t have 2: "t < length (threads s')" by simp
  have "threads s' ! t = Call c (Parked None) \<or> (\<exists>e. threads s' ! t = ret_err zero c e)"
  proof (cases "t \<in> set (actors ev)")
    case False
    from exec_idle_threads [OF ex i t False] th show ?thesis by simp
  next
    case True
    from th show ?thesis
    proof
      assume pk: "threads s ! t = Call c (Parked None)"
      show ?thesis
      proof (cases ev)
        case (Xfer r w)
        with ex have "xfer r w (threads s ! r) (threads s ! w) s = Some s'" by (auto split: if_splits)
        from xfer_result [OF this] True Xfer pk show ?thesis by auto
      qed (use True ex t pk in \<open>auto split: if_splits option.splits\<close>)
    next
      assume "\<exists>e. threads s ! t = ret_err zero c e"
      then obtain e where "threads s ! t = ret_err zero c e" ..
      from exec_ret_err [OF ex t this] show ?thesis by blast
    qed
  qed
  with 1 2 show ?thesis by (simp add: parked_for_good_def)
qed

lemma run_parked_for_good:
  "run zero evs s = Some s' \<Longrightarrow> parked_for_good zero t c s \<Longrightarrow> parked_for_good zero t c s'"
proof (induction evs arbitrary: s)
  case Nil
  then show ?case by simp
next
  case (Cons ev evs)
  then obtain s1 where s1: "exec zero ev s = Some s1" and r: "run zero evs s1 = Some s'"
    by (auto split: option.splits)
  from exec_parked_for_good [OF s1 Cons.prems(2)] Cons.IH [OF r] show ?case by simp
qed

lemma lost_swap_state_for_good: "parked_for_good (0::nat) 0 (Recv 0 0) lost_swap_state"
  by (simp add: parked_for_good_def idle_def lost_swap_state_def)

lemma lost_swap_deadlock:
  "(\<exists>k e. ev = Cancel k e) \<or> exec (0::nat) ev lost_swap_state = None"
proof (cases ev)
  case (Step t)
  have "t < 3 \<Longrightarrow> t = 0 \<or> t = 1 \<or> t = 2" by arith
  with Step show ?thesis by (auto simp: lost_swap_state_def)
next
  case (Park t)
  have "t < 3 \<Longrightarrow> t = 0 \<or> t = 1 \<or> t = 2" by arith
  with Park show ?thesis by (auto simp: lost_swap_state_def)
next
  case (OnDone t)
  have "t < 3 \<Longrightarrow> t = 0 \<or> t = 1 \<or> t = 2" by arith
  with OnDone show ?thesis by (auto simp: lost_swap_state_def)
next
  case (Xfer r w)
  have "r < 3 \<Longrightarrow> r = 0 \<or> r = 1 \<or> r = 2" "w < 3 \<Longrightarrow> w = 0 \<or> w = 1 \<or> w = 2" by arith+
  with Xfer show ?thesis by (auto simp: lost_swap_state_def)
next
  case (OnClosed t)
  have "t < 3 \<Longrightarrow> t = 0 \<or> t = 1 \<or> t = 2" by arith
  with OnClosed show ?thesis by (auto simp: lost_swap_state_def is_closed_def)
next
  case (Cancel k e)
  then show ?thesis by simp
qed

lemma swap_after_park_is_seen:
  "run (0::nat) seen_swap_schedule (boot [Call (Recv 0 0) Entry, ConnectCall 0 0, Call (Send 0 0 7) Entry])
     = Some \<lparr>ins = (\<lambda>a. port0)(0 := \<lparr>data = Some 0, ping = Some [], create = True\<rparr>),
             outs = (\<lambda>a. port0)(0 := \<lparr>data = Some 0, ping = Some [], create = True\<rparr>),
             chans = [\<lparr>cap = 0, closed = False\<rparr>], ctxs = (\<lambda>k. None),
             threads = [RecvRet 7 None, Ctl [], SendRet None]\<rparr>"
  by (simp add: seen_swap_schedule_def eval_defs)

text \<open>
  C1. The claim fails on the code. In \<open>lost_swap_schedule\<close> the receiver has read the
  nil channel from its port and has not yet entered its \<open>select\<close> when \<open>Connect\<close>
  swaps channel 0 into the port: the notify of that swap finds no receiver parked on
  \<open>ping\<close>, which is unbuffered, and is dropped. The receiver then parks on the nil
  channel it has read, without reading the port again. In the state reached the port
  is bound to channel 0 and a sender is parked on channel 0 with the value 7, the receiver
  is parked on nil, and no event is enabled other than the cancelling of a context.
  After every run from that state the receiver is still parked on nil or has returned an
  error: the value on the latest channel is never received.
\<close>

theorem swap_before_park_is_lost:
  "run (0::nat) (take 11 lost_swap_schedule)
       (boot [Call (Recv 0 0) Entry, ConnectCall 0 0, Call (Send 0 0 7) Entry])
     = Some \<lparr>ins = (\<lambda>a. port0)(0 := \<lparr>data = Some 0, ping = Some [], create = True\<rparr>),
             outs = (\<lambda>a. port0)(0 := \<lparr>data = Some 0, ping = Some [], create = True\<rparr>),
             chans = [\<lparr>cap = 0, closed = False\<rparr>], ctxs = (\<lambda>k. None),
             threads = [Call (Recv 0 0) (Select None), Ctl [], Call (Send 0 0 7) Entry]\<rparr>
   \<and> run 0 lost_swap_schedule (boot [Call (Recv 0 0) Entry, ConnectCall 0 0, Call (Send 0 0 7) Entry])
     = Some lost_swap_state
   \<and> threads lost_swap_state ! 0 = Call (Recv 0 0) (Parked None)
   \<and> current lost_swap_state (InP 0) = Some 0
   \<and> threads lost_swap_state ! 2 = Call (Send 0 0 7) (Parked (Some 0))
   \<and> (\<forall>ev. (\<exists>k e. ev = Cancel k e) \<or> exec 0 ev lost_swap_state = None)
   \<and> (\<forall>evs s'. run 0 evs lost_swap_state = Some s'
         \<longrightarrow> threads s' ! 0 = Call (Recv 0 0) (Parked None)
             \<or> (\<exists>e. threads s' ! 0 = RecvRet 0 (Some e)))"
proof -
  have "threads s' ! 0 = Call (Recv 0 0) (Parked None) \<or> (\<exists>e. threads s' ! 0 = RecvRet 0 (Some e))"
    if "run 0 evs lost_swap_state = Some s'" for evs s'
    using run_parked_for_good [OF that lost_swap_state_for_good]
    by (simp add: parked_for_good_def)
  then show ?thesis
    using lost_swap_deadlock
    by (simp add: lost_swap_schedule_def lost_swap_state_def eval_defs)
qed

theorem swap_before_park_is_lost_witness:
  "run (0::nat) [Cancel 1 Canceled, Cancel 0 DeadlineExceeded, OnDone 0] lost_swap_state
     = Some (lost_swap_state
         \<lparr>ins := (\<lambda>a. port0)(0 := \<lparr>data = Some 0, ping = Some [], create = True\<rparr>),
          ctxs := (\<lambda>k. None)(1 := Some Canceled, 0 := Some DeadlineExceeded),
          threads := [RecvRet 0 (Some DeadlineExceeded), Ctl [], Call (Send 0 0 7) (Parked (Some 0))]\<rparr>)"
  using swap_before_park_is_lost
  by (simp add: lost_swap_state_def eval_defs)

subsection \<open>A swap that the waiting call does not see\<close>

lemma stale_send_state_for_good: "parked_for_good (0::nat) 0 (Send 0 0 7) stale_send_state"
  by (simp add: parked_for_good_def idle_def stale_send_state_def)

lemma swap_keeps_Select:
  assumes "t < length (threads s)" and "threads s ! t = Call c (Select ch)"
  shows "threads (swap p d s) ! t = Call c (Select ch)"
proof -
  let ?s2 = "port_upd p (\<lambda>x. x\<lparr>data := d\<rparr>) (port_upd p init s)"
  from assms have "t < length (threads ?s2)" "threads ?s2 ! t = Call c (Select ch)" by simp_all
  with nth_threads_notify [of t ?s2 p] show ?thesis by (auto simp: swap_def)
qed

text \<open>
  C2. The claim fails on the code, by the defect that loses the swap above: \<open>ping\<close>
  is unbuffered. A call of \<open>Recv\<close> or \<open>Send\<close>
  that has read channel \<open>ch\<close> from its port and has not yet parked in its \<open>select\<close>
  is left as it is by a swap of its port: it is not moved to the head of its loop,
  while the port now holds the new channel. If its context is not cancelled and no
  partner is ready on \<open>ch\<close>, it can park, and parks on \<open>ch\<close>, the channel it read
  before the swap. In \<open>stale_send_schedule\<close> this happens to a call of \<open>Send\<close>: in
  the state reached the port is bound to channel 0, a receiver is parked on channel 0,
  and the sender is parked on the nil channel; the two cannot transfer. After every run
  from that state the sender is still parked on the nil channel or has returned an
  error: it neither completes the transfer on the current channel nor restarts its
  loop on the new channel.
\<close>

theorem swap_in_window_is_not_seen:
  "(t < length (threads s) \<and> threads s ! t = Call c (Select ch)
      \<longrightarrow> threads (swap (pref_of c) d s) ! t = Call c (Select ch)
          \<and> current (swap (pref_of c) d s) (pref_of c) = d)
   \<and> (t < length (threads s) \<and> threads s ! t = Call c (Select ch)
        \<and> ctxs s (ctx_of c) = None \<and> \<not> data_ready s c ch
      \<longrightarrow> exec zero (Park t) s
            = Some (set_thread t (Call c (Parked ch)) (enqueue t (pref_of c) s)))
   \<and> run (0::nat) stale_send_schedule
         (boot [Call (Send 0 0 7) Entry, ConnectCall 0 0, Call (Recv 0 0) Entry])
       = Some stale_send_state
   \<and> threads stale_send_state ! 0 = Call (Send 0 0 7) (Parked None)
   \<and> current stale_send_state (OutP 0) = Some 0
   \<and> threads stale_send_state ! 2 = Call (Recv 0 0) (Parked (Some 0))
   \<and> exec (0::nat) (Xfer 2 0) stale_send_state = None
   \<and> (\<forall>evs s'. run (0::nat) evs stale_send_state = Some s'
         \<longrightarrow> threads s' ! 0 = Call (Send 0 0 7) (Parked None)
             \<or> (\<exists>e. threads s' ! 0 = SendRet (Some e)))"
proof -
  have 1: "t < length (threads s) \<and> threads s ! t = Call c (Select ch)
      \<longrightarrow> threads (swap (pref_of c) d s) ! t = Call c (Select ch)
          \<and> current (swap (pref_of c) d s) (pref_of c) = d"
    by (simp add: swap_keeps_Select current_swap)
  have 2: "t < length (threads s) \<and> threads s ! t = Call c (Select ch)
        \<and> ctxs s (ctx_of c) = None \<and> \<not> data_ready s c ch
      \<longrightarrow> exec zero (Park t) s
            = Some (set_thread t (Call c (Parked ch)) (enqueue t (pref_of c) s))"
    by simp
  have 3: "run (0::nat) stale_send_schedule
         (boot [Call (Send 0 0 7) Entry, ConnectCall 0 0, Call (Recv 0 0) Entry])
       = Some stale_send_state
   \<and> threads stale_send_state ! 0 = Call (Send 0 0 7) (Parked None)
   \<and> current stale_send_state (OutP 0) = Some 0
   \<and> threads stale_send_state ! 2 = Call (Recv 0 0) (Parked (Some 0))
   \<and> exec (0::nat) (Xfer 2 0) stale_send_state = None"
    by (simp add: stale_send_schedule_def stale_send_state_def eval_defs)
  have 4: "threads s' ! 0 = Call (Send 0 0 7) (Parked None) \<or> (\<exists>e. threads s' ! 0 = SendRet (Some e))"
    if "run (0::nat) evs stale_send_state = Some s'" for evs s'
    using run_parked_for_good [OF that stale_send_state_for_good]
    by (simp add: parked_for_good_def)
  from 1 2 3 4 show ?thesis by blast
qed

theorem swap_in_window_is_not_seen_witness:
  "(0::nat) < length (threads window_demo)
   \<and> threads window_demo ! 0 = Call (Send 0 0 7) (Select None)
   \<and> threads (swap (OutP 0) (Some 0) window_demo) ! 0 = Call (Send 0 0 7) (Select None)
   \<and> current (swap (OutP 0) (Some 0) window_demo) (OutP 0) = Some 0
   \<and> ctxs (swap (OutP 0) (Some 0) window_demo) (ctx_of (Send 0 0 7 :: nat call)) = None
   \<and> \<not> data_ready (swap (OutP 0) (Some 0) window_demo) (Send 0 0 7) None
   \<and> map_option (\<lambda>s. threads s ! 0) (exec (0::nat) (Park 0) (swap (OutP 0) (Some 0) window_demo))
       = Some (Call (Send 0 0 7) (Parked None))
   \<and> run (0::nat) [Cancel 0 Canceled, OnDone 0] stale_send_state
       = Some (stale_send_state
           \<lparr>outs := (\<lambda>a. port0)(0 := \<lparr>data = Some 0, ping = Some [], create = True\<rparr>),
            ctxs := (\<lambda>k. None)(0 := Some Canceled),
            threads := [SendRet (Some Canceled), Ctl [], Call (Recv 0 0) (Parked (Some 0))]\<rparr>)"
  using swap_in_window_is_not_seen [where t = 0 and s = window_demo and c = "Send 0 0 7"
      and ch = None and d = "Some 0" and zero = "0::nat"]
    swap_in_window_is_not_seen [where t = 0 and s = "swap (OutP 0) (Some 0) window_demo"
      and c = "Send 0 0 7" and ch = None and zero = "0::nat"]
  by (simp add: window_demo_def stale_send_state_def eval_defs swap_def)

subsection \<open>Disconnect\<close>

lemma run_append:
  "run zero (xs @ ys) s = (case run zero xs s of None \<Rightarrow> None | Some s1 \<Rightarrow> run zero ys s1)"
  by (induction xs arbitrary: s) (auto split: option.splits)

lemma length_threads_swap [simp]: "length (threads (swap p d s)) = length (threads s)"
  by (simp add: swap_def)

lemma set_thread_swap:
  "set_thread t th (swap p d (set_thread t th' s)) = set_thread t th (swap p d s)"
  by (simp add: swap_def port_upd_set_thread set_thread_notify)

lemma run_Disconnect_ops:
  assumes "t < length (threads s)" and "threads s ! t = Ctl (Disconnect_ops cn)"
  shows "run zero [Step t, Step t, Step t, Step t, Step t, Step t] s
           = Some (set_thread t (Ctl []) (Disconnect cn s))"
proof -
  let ?s1 = "set_thread t (Ctl (swap_ops (InP (to_port cn)) None)) (swap (OutP (from_port cn)) None s)"
  from assms have 1: "run zero [Step t, Step t, Step t] s = Some ?s1"
    by (intro run_swap_ops) (simp_all add: Disconnect_ops_def)
  from assms(1) have "t < length (threads ?s1)" "threads ?s1 ! t = Ctl (swap_ops (InP (to_port cn)) None @ [])"
    by simp_all
  then have 2: "run zero [Step t, Step t, Step t] ?s1
      = Some (set_thread t (Ctl []) (swap (InP (to_port cn)) None ?s1))"
    by (rule run_swap_ops)
  have "run zero ([Step t, Step t, Step t] @ [Step t, Step t, Step t]) s
      = Some (set_thread t (Ctl []) (swap (InP (to_port cn)) None ?s1))"
    unfolding run_append 1 using 2 by simp
  then show ?thesis by (simp add: set_thread_swap Disconnect_def)
qed

lemma run_ConnectCall:
  assumes "t < length (threads s)" and "threads s ! t = ConnectCall f g"
  shows "run zero [Step t, Step t, Step t, Step t, Step t, Step t, Step t] s
           = Some (set_thread t (Ctl []) (snd (Connect f g s)))"
proof -
  let ?d = "Some (length (chans s))"
  let ?s0 = "set_thread t (Ctl (swap_ops (OutP f) ?d @ swap_ops (InP g) ?d)) (snd (make_chan s))"
  let ?s1 = "set_thread t (Ctl (swap_ops (InP g) ?d)) (swap (OutP f) ?d ?s0)"
  from assms have 0: "run zero [Step t] s = Some ?s0" by (simp add: make_chan_def)
  from assms(1) have "t < length (threads ?s0)"
    "threads ?s0 ! t = Ctl (swap_ops (OutP f) ?d @ swap_ops (InP g) ?d)"
    by (simp_all add: make_chan_def)
  then have 1: "run zero [Step t, Step t, Step t] ?s0 = Some ?s1" by (rule run_swap_ops)
  from assms(1) have "t < length (threads ?s1)" "threads ?s1 ! t = Ctl (swap_ops (InP g) ?d @ [])"
    by (simp_all add: make_chan_def)
  then have 2: "run zero [Step t, Step t, Step t] ?s1
      = Some (set_thread t (Ctl []) (swap (InP g) ?d ?s1))"
    by (rule run_swap_ops)
  have "run zero ([Step t] @ [Step t, Step t, Step t] @ [Step t, Step t, Step t]) s
      = Some (set_thread t (Ctl []) (swap (InP g) ?d ?s1))"
    unfolding run_append 0 using 1 2 by simp
  then show ?thesis
    by (simp add: set_thread_swap Connect_def make_chan_def)
qed

lemma exec_unbinding:
  assumes ex: "exec zero ev s = Some s'" and u: "unbinding t p s"
  shows "unbinding t p s'"
proof -
  from u obtain xs where t: "t < length (threads s)" and q: "quiet p s"
    and th: "threads s ! t = Ctl xs" and d: "data (port_at s p) = None \<or> SetP p None \<in> set xs"
    by (auto simp: unbinding_def)
  from exec_length [OF ex] t have 1: "t < length (threads s')" by simp
  from exec_quiet [OF ex q] have 2: "quiet p s'" .
  have "\<exists>ys. threads s' ! t = Ctl ys \<and> (data (port_at s' p) = None \<or> SetP p None \<in> set ys)"
  proof (cases "t \<in> set (actors ev)")
    case False
    from exec_other [OF ex t False] th have "threads s' ! t = Ctl xs" by auto
    with d exec_data_None [OF ex q] show ?thesis by auto
  next
    case True
    with ex t th have ev: "ev = Step t"
      by (cases ev) (auto split: if_splits dest: xfer_result)
    with ex t th obtain x ys where xs: "xs = x # ys" and s': "s' = set_thread t (Ctl ys) (do_op x s)"
      by (cases xs) auto
    from s' t have thr: "threads s' ! t = Ctl ys" by simp
    show ?thesis
    proof (cases "x = SetP p None")
      case True
      with s' have "data (port_at s' p) = None" by (simp add: port_at_port_upd)
      with thr show ?thesis by simp
    next
      case False
      with d xs exec_data_None [OF ex q] thr show ?thesis by auto
    qed
  qed
  with 1 2 show ?thesis by (simp add: unbinding_def)
qed

lemma run_unbinding:
  "run zero evs s = Some s' \<Longrightarrow> unbinding t p s \<Longrightarrow> unbinding t p s'"
proof (induction evs arbitrary: s)
  case Nil
  then show ?case by simp
next
  case (Cons ev evs)
  then obtain s1 where s1: "exec zero ev s = Some s1" and r: "run zero evs s1 = Some s'"
    by (auto split: option.splits)
  from exec_unbinding [OF s1 Cons.prems(2)] Cons.IH [OF r] show ?case by simp
qed

lemma run_Disconnect_thread:
  assumes "run zero evs s = Some s'" and "t < length (threads s)"
      and "threads s ! t = Ctl (Disconnect_ops cn)" and "threads s' ! t = Ctl []"
      and "p = OutP (from_port cn) \<or> p = InP (to_port cn)" and "quiet p s"
  shows "current s' p = None"
proof -
  from assms(2,3,5,6) have "unbinding t p s"
    by (auto simp: unbinding_def Disconnect_ops_def swap_ops_def)
  from run_unbinding [OF assms(1) this] assms(4) show ?thesis
    by (simp add: unbinding_def current_def)
qed

subsection \<open>Connect\<close>

text \<open>
  C5. \<open>Connect(from, to)\<close> returns a handle that holds exactly the two ports it was
  given. It makes one new channel, open and of capacity 0, whose index lies past every
  channel the heap had before, and its effect on the state is the swap of that one channel
  into the outbound port followed by the swap of the same channel into the inbound port.
  When it returns, the current channel of both ports is the new channel. A goroutine that
  calls \<open>Connect\<close> and runs its seven pieces in a row has that same effect.
\<close>

theorem Connect_binds_fresh_channel:
  "fst (Connect frm to s) = \<lparr>from_port = frm, to_port = to\<rparr>
   \<and> chans (snd (Connect frm to s)) = chans s @ [\<lparr>cap = 0, closed = False\<rparr>]
   \<and> snd (Connect frm to s) =
       swap (InP to) (Some (length (chans s)))
         (swap (OutP frm) (Some (length (chans s))) (snd (make_chan s)))
   \<and> current (snd (Connect frm to s)) (OutP frm) = Some (length (chans s))
   \<and> current (snd (Connect frm to s)) (InP to) = Some (length (chans s))
   \<and> (t < length (threads s) \<and> threads s ! t = ConnectCall frm to
        \<longrightarrow> run zero [Step t, Step t, Step t, Step t, Step t, Step t, Step t] s
              = Some (set_thread t (Ctl []) (snd (Connect frm to s))))"
  using run_ConnectCall [of t s frm to zero]
  by (simp add: Connect_def make_chan_def current_swap)

theorem Connect_binds_fresh_channel_witness:
  "(2::nat) < length (threads (boot [Call (Recv 0 0) Entry, Call (Send 0 0 5) Entry, ConnectCall 0 0] :: nat sys))
   \<and> threads (boot [Call (Recv 0 0) Entry, Call (Send 0 0 5) Entry, ConnectCall 0 0] :: nat sys) ! 2
       = ConnectCall 0 0
   \<and> run (0::nat) [Step 2, Step 2, Step 2, Step 2, Step 2, Step 2, Step 2]
         (boot [Call (Recv 0 0) Entry, Call (Send 0 0 5) Entry, ConnectCall 0 0])
       = Some \<lparr>ins = (\<lambda>a. port0)(0 := \<lparr>data = Some 0, ping = Some [], create = True\<rparr>),
               outs = (\<lambda>a. port0)(0 := \<lparr>data = Some 0, ping = Some [], create = True\<rparr>),
               chans = [\<lparr>cap = 0, closed = False\<rparr>], ctxs = (\<lambda>k. None),
               threads = [Call (Recv 0 0) Entry, Call (Send 0 0 5) Entry, Ctl []]\<rparr>
   \<and> fst (Connect 0 0 (boot [Call (Recv 0 0) Entry, Call (Send 0 0 5) Entry, ConnectCall 0 0] :: nat sys))
       = \<lparr>from_port = 0, to_port = 0\<rparr>"
  using Connect_binds_fresh_channel [where frm = 0 and to = 0 and t = 2 and zero = "0::nat"
     and s = "boot [Call (Recv 0 0) Entry, Call (Send 0 0 5) Entry, ConnectCall 0 0]"]
  by (simp add: eval_defs)

subsection \<open>Disconnect, called again and called concurrently\<close>

text \<open>
  C4, the claim as stated. It fails: \<open>Disconnect\<close> has no guard, and a call after
  the first one has its effect again. After
  \<open>first := Connect(&out, &in); first.Disconnect(); second := Connect(&out, &in)\<close>
  both ports are bound to channel 1 of the second connection, and one more call
  \<open>first.Disconnect()\<close> swaps nil into both ports again. And with calls of
  \<open>Disconnect\<close> alone: in \<open>cut_wake_demo\<close> the first call wakes the receiver, which
  reads nil and parks again; the second call on the same connection wakes it once more.
\<close>

theorem Disconnect_again_counterexample:
  "current rewired (OutP 0) = Some 1 \<and> current rewired (InP 0) = Some 1
   \<and> current (Disconnect first_conn rewired) (OutP 0) = None
   \<and> current (Disconnect first_conn rewired) (InP 0) = None
   \<and> map_option threads
         (run (0::nat) [Step 1, Step 1, Step 1, Step 1, Step 1, Step 1, Step 0, Step 0, Park 0]
            cut_wake_demo)
       = Some [Call (Recv 0 0) (Parked None), Ctl [],
               Ctl (Disconnect_ops \<lparr>from_port = 0, to_port = 0\<rparr>), Ctl []]
   \<and> map_option threads
         (run (0::nat) [Step 1, Step 1, Step 1, Step 1, Step 1, Step 1, Step 0, Step 0, Park 0,
                        Step 2, Step 2, Step 2, Step 2, Step 2, Step 2]
            cut_wake_demo)
       = Some [Call (Recv 0 0) Drain, Ctl [], Ctl [], Ctl []]"
proof -
  have "current rewired (OutP 0) = Some 1 \<and> current rewired (InP 0) = Some 1
      \<and> current (Disconnect first_conn rewired) (OutP 0) = None
      \<and> current (Disconnect first_conn rewired) (InP 0) = None"
    by (simp add: rewired_def first_conn_def Connect_def Disconnect_def make_chan_def
        current_swap boot_def)
  then show ?thesis by (simp add: cut_wake_demo_def eval_defs)
qed

text \<open>
  C4, amended. Every call of \<open>Disconnect\<close> swaps nil into the outbound and then the
  inbound port of the connection; there is no guard. After a call, run alone, both ports
  are unbound. A goroutine that calls \<open>Disconnect\<close> can run the six pieces of the two
  swaps in a row in every state, with the effect of the call run alone. When goroutines
  run concurrently and none of them binds the two ports to a channel (any number of them
  may run \<open>Disconnect\<close> on the same connection), then once a goroutine has finished
  its \<open>Disconnect\<close> both ports are unbound.
\<close>

theorem Disconnect_unbinds_on_every_call:
  "current (Disconnect cn s) (OutP (from_port cn)) = None
   \<and> current (Disconnect cn s) (InP (to_port cn)) = None
   \<and> (t < length (threads s) \<and> threads s ! t = Ctl (Disconnect_ops cn)
        \<longrightarrow> run zero [Step t, Step t, Step t, Step t, Step t, Step t] s
              = Some (set_thread t (Ctl []) (Disconnect cn s)))
   \<and> (run zero evs s = Some s' \<and> t < length (threads s)
        \<and> threads s ! t = Ctl (Disconnect_ops cn) \<and> threads s' ! t = Ctl []
        \<and> quiet (OutP (from_port cn)) s \<and> quiet (InP (to_port cn)) s
        \<longrightarrow> current s' (OutP (from_port cn)) = None \<and> current s' (InP (to_port cn)) = None)"
proof -
  have 1: "current (Disconnect cn s) (OutP (from_port cn)) = None
      \<and> current (Disconnect cn s) (InP (to_port cn)) = None"
    by (simp add: Disconnect_def current_swap)
  note 2 = run_Disconnect_ops [of t s cn zero]
    and 3 = run_Disconnect_thread [of zero evs s s' t cn "OutP (from_port cn)"]
    and 4 = run_Disconnect_thread [of zero evs s s' t cn "InP (to_port cn)"]
  from 1 2 3 4 show ?thesis by blast
qed

theorem Disconnect_unbinds_on_every_call_witness: "run (0::nat) [Step 0, Step 1, Step 0, Step 1, Step 0, Step 1, Step 0, Step 1, Step 0, Step 1, Step 0, Step 1]
       cut_twice_demo
     = Some (cut_twice_demo\<lparr>ins := (\<lambda>a. port0)(0 := \<lparr>data = None, ping = Some [], create = True\<rparr>),
                             outs := (\<lambda>a. port0)(0 := \<lparr>data = None, ping = Some [], create = True\<rparr>),
                             threads := [Ctl [], Ctl [], Ctl []]\<rparr>)
   \<and> (0::nat) < length (threads cut_twice_demo)
   \<and> threads cut_twice_demo ! 0 = Ctl (Disconnect_ops \<lparr>from_port = 0, to_port = 0\<rparr>)
   \<and> threads cut_twice_demo ! 1 = Ctl (Disconnect_ops \<lparr>from_port = 0, to_port = 0\<rparr>)
   \<and> quiet (OutP 0) cut_twice_demo \<and> quiet (InP 0) cut_twice_demo"
  using Disconnect_unbinds_on_every_call [of "\<lparr>from_port = 0, to_port = 0\<rparr>" cut_twice_demo 0 "0::nat"
     "[Step 0, Step 1, Step 0, Step 1, Step 0, Step 1, Step 0, Step 1, Step 0, Step 1, Step 0, Step 1]"]
  by (simp add: cut_twice_demo_def eval_defs quiet_def)

subsection \<open>Network.Run\<close>

text \<open>
  C7. \<open>Run(ctx)\<close> starts one task for each registered component, and each task is that
  component's \<open>Run\<close> applied to the one context \<open>ctx\<close>. For every order in which tasks
  finish, \<open>Run\<close> returns exactly when every component's task has finished, also when
  some of them have reported errors before; and what it returns is one value: the error
  of the first task, in the order of finishing, that reported one, or nil when none did.
\<close>

theorem Run_waits_for_every_task:
  assumes "distinct order" and "set order \<subseteq> {..<length (components net)}"
  shows "tasks ctx net = map (\<lambda>c. c ctx) (components net)
       \<and> (Run ctx order net \<noteq> None)
           = (\<forall>i<length (components net). i \<in> set order \<and> (components net ! i) ctx \<noteq> None)
       \<and> (\<forall>r. Run ctx order net = Some r
             \<longrightarrow> r = (case reported (tasks ctx net) order of [] \<Rightarrow> None | e # es \<Rightarrow> Some e))"
proof -
  from assms have "set order \<subseteq> {..<length (tasks ctx net)}" by (simp add: tasks_def)
  from finished_all [OF assms(1) this]
  have "(length (components net) \<le> length (finished (tasks ctx net) order))
      = (\<forall>i<length (components net). i \<in> set order \<and> (components net ! i) ctx \<noteq> None)"
    by (simp add: tasks_def)
  then show ?thesis by (auto simp: Run_eq tasks_def)
qed

theorem Run_waits_for_every_task_witness:
  "distinct [2, 0, 1::nat] \<and> set [2, 0, 1] \<subseteq> {..<length (components three_tasks)}
   \<and> Run () [2, 0, 1] three_tasks = Some (Some 2)
   \<and> Run () [1, 2, 0] three_tasks = Some (Some 1)
   \<and> Run () [1, 2] three_tasks = None
   \<and> Run () [1] stuck_task = None"
  using Run_waits_for_every_task [of "[2, 0, 1]" three_tasks "()"]
  by (simp add: three_tasks_def stuck_task_def Run_def Go_def Wait_def finish_task_def finish_def tasks_def)

end
